theory Spec2Isabelle
  imports Main "HOL-Library.AList" "HOL-Library.Multiset"
begin

section \<open>JavaScript values\<close>

text \<open>
  The client is TypeScript; payloads, match values and query objects are plain
  JavaScript values. A value is a finite tree. Numbers are modelled by \<open>int\<close>: the
  code never computes with them, it passes them on, compares them with
  \<open>undefined\<close> and (in one variant) tests their truthiness. A JavaScript number
  holds every integer up to \<open>2^53\<close> exactly; fractions, infinities and \<open>NaN\<close>
  are outside the model. An object is the list of its own enumerable
  string-keyed properties in the order in which JavaScript enumerates them,
  which is the order \<^verbatim>\<open>JSON.stringify\<close> serialises them in.
\<close>

datatype jsval =
    JUndefined
  | JNull
  | JBool bool
  | JNum int
  | JStr string
  | JArr "jsval list"
  | JObj "(string \<times> jsval) list"

type_synonym props = "(string \<times> jsval) list"

text \<open>Truthiness (\<^verbatim>\<open>if (x)\<close>, \<^verbatim>\<open>!x\<close>, \<^verbatim>\<open>a || b\<close>).\<close>

fun truthy :: "jsval \<Rightarrow> bool" where
  "truthy JUndefined = False"
| "truthy JNull = False"
| "truthy (JBool b) = b"
| "truthy (JNum n) = (n \<noteq> 0)"
| "truthy (JStr s) = (s \<noteq> [])"
| "truthy (JArr xs) = True"
| "truthy (JObj ps) = True"

text \<open>
  \<^verbatim>\<open>String(x)\<close>, as a template literal \<^verbatim>\<open>`$${x}`\<close> and a computed property key
  \<^verbatim>\<open>{ [x]: ... }\<close> apply it. An integer below \<open>10^21\<close> is written in decimal. From
  \<open>10^21\<close> on JavaScript writes the significant digits, a point after the first
  when there are several, and the exponent: \<^verbatim>\<open>1e+21\<close>, \<^verbatim>\<open>1.5e+21\<close>. (For such a
  number the digits of the \<open>int\<close> are taken to be the digits JavaScript prints.)
\<close>

function digits :: "int \<Rightarrow> string" where
  "digits n =
     (if n < 10 then [''0123456789'' ! nat n]
      else digits (n div 10) @ [''0123456789'' ! nat (n mod 10)])"
  by pat_completeness auto
termination
  by (relation "measure nat") auto

definition strip_zeros :: "string \<Rightarrow> string" where
  "strip_zeros ds = rev (dropWhile (\<lambda>c. c = CHR ''0'') (rev ds))"

definition number_to_string :: "int \<Rightarrow> string" where
  "number_to_string n =
     (let ds = digits \<bar>n\<bar>;
          body =
            (if length ds \<le> 21 then ds
             else (let s = strip_zeros ds
                   in hd s # (if tl s = [] then [] else CHR ''.'' # tl s) @
                      ''e+'' @ digits (int (length ds) - 1)))
      in if n < 0 then CHR ''-'' # body else body)"

fun join_comma :: "string list \<Rightarrow> string" where
  "join_comma [] = []"
| "join_comma [s] = s"
| "join_comma (s # t # ss) = s @ '','' @ join_comma (t # ss)"

fun to_string :: "jsval \<Rightarrow> string" where
  "to_string JUndefined = ''undefined''"
| "to_string JNull = ''null''"
| "to_string (JBool b) = (if b then ''true'' else ''false'')"
| "to_string (JNum n) = number_to_string n"
| "to_string (JStr s) = s"
| "to_string (JArr xs) =
     join_comma (map (\<lambda>x. if x = JUndefined \<or> x = JNull then [] else to_string x) xs)"
| "to_string (JObj ps) = ''[object Object]''"

text \<open>
  Property read \<^verbatim>\<open>o.k\<close> on a plain data object: the own property, else
  \<open>undefined\<close> (the names read this way, \<open>field\<close>, \<open>operator\<close> and \<open>value\<close>, are
  not properties of \<^verbatim>\<open>Object.prototype\<close>).
\<close>

definition obj_get :: "props \<Rightarrow> string \<Rightarrow> jsval" where
  "obj_get ps k = (case map_of ps k of None \<Rightarrow> JUndefined | Some v \<Rightarrow> v)"

text \<open>
  The order of the own properties: first the names that are array indices (the
  decimal numerals of the integers from 0 to \<open>2^32 - 2\<close>, without leading zeros)
  in ascending numeric order, then all other names in the order of their
  creation. \<open>array_index\<close> recognises an index and gives its value.
\<close>

definition digit_of :: "char \<Rightarrow> int option" where
  "digit_of c = map_of (zip ''0123456789'' [0, 1, 2, 3, 4, 5, 6, 7, 8, 9]) c"

fun numeral_value :: "int \<Rightarrow> string \<Rightarrow> int option" where
  "numeral_value acc [] = Some acc"
| "numeral_value acc (c # cs) =
     (case digit_of c of None \<Rightarrow> None | Some v \<Rightarrow> numeral_value (10 * acc + v) cs)"

definition array_index :: "string \<Rightarrow> int option" where
  "array_index k =
     (if k = [] then None
      else (case numeral_value 0 k of
              None \<Rightarrow> None
            | Some n \<Rightarrow> if number_to_string n = k \<and> n < 4294967295 then Some n else None))"

definition enumerated_before :: "string \<Rightarrow> string \<Rightarrow> bool" where
  "enumerated_before k k' =
     (case array_index k of
        None \<Rightarrow> False
      | Some n \<Rightarrow> (case array_index k' of None \<Rightarrow> True | Some n' \<Rightarrow> n < n'))"

text \<open>A new own property takes its place in that order.\<close>

fun insert_key :: "string \<Rightarrow> jsval \<Rightarrow> props \<Rightarrow> props" where
  "insert_key k v [] = [(k, v)]"
| "insert_key k v (p # ps) =
     (if enumerated_before k (fst p) then (k, v) # p # ps else p # insert_key k v ps)"

text \<open>
  Defining or overwriting an own data property: an existing property keeps its
  place and takes the new value.
\<close>

definition set_own :: "props \<Rightarrow> string \<Rightarrow> jsval \<Rightarrow> props" where
  "set_own ps k v =
     (case map_of ps k of None \<Rightarrow> insert_key k v ps | Some old \<Rightarrow> AList.update k v ps)"

text \<open>
  Bracket assignment \<^verbatim>\<open>o[k] = v\<close> on an object created by \<^verbatim>\<open>{}\<close>. The one name
  that does not define an own property is \<open>__proto__\<close>: on an object without an
  own property of that name the assignment runs the inherited setter of
  \<^verbatim>\<open>Object.prototype\<close>, which replaces the prototype of \<open>o\<close> when \<open>v\<close> is an
  object or \<open>null\<close> and does nothing otherwise. In neither case does \<open>o\<close> gain an
  own property, so nothing is serialised for it.
\<close>

definition obj_set :: "props \<Rightarrow> string \<Rightarrow> jsval \<Rightarrow> props" where
  "obj_set ps k v =
     (if k = ''__proto__'' \<and> map_of ps k = None then ps else set_own ps k v)"

section \<open>The query builder of \<^verbatim>\<open>pulse.find\<close>\<close>

text \<open>
  \<^verbatim>\<open>interface findData\<close>. An optional member is an \<open>option\<close>. \<open>mfield\<close>, \<open>operator\<close>
  and \<open>mvalue\<close> are the members \<open>field\<close>, \<open>operator\<close> and \<open>value\<close> of a match
  triple; \<open>ofield\<close>, \<open>order\<close> and \<open>direction\<close> are the members \<open>field\<close>, \<open>order\<close>
  and \<open>direction\<close> of an \<open>orderBy\<close> entry.
\<close>

record match_item =
  mfield :: string
  operator :: string
  mvalue :: jsval

record orderBy_item =
  ofield :: string
  order :: "string option"
  direction :: "int option"

text \<open>
  \<open>match\<close> is declared as an array of triples or a \<^verbatim>\<open>Record<string, any>\<close>;
  \<^verbatim>\<open>Array.isArray\<close> tells them apart.
\<close>

datatype match_spec = MatchList "match_item list" | MatchMap props

record findData =
  match :: "match_spec option"
  page :: "int option"
  pageSize :: "int option"
  sort :: "string option"
  orderBy :: "orderBy_item list option"
  search :: "jsval option"

subsection \<open>\<^verbatim>\<open>src/maxflowClient.ts\<close> (and \<^verbatim>\<open>src/src/maxflowClient.ts\<close>, which has the same text)\<close>

text \<open>The object literal \<^verbatim>\<open>{ [`$${item.operator}`]: item.value }\<close>.\<close>

definition condition :: "string \<Rightarrow> jsval \<Rightarrow> jsval" where
  "condition op v = JObj [(''$'' @ op, v)]"

text \<open>
  The loop \<^verbatim>\<open>for (const item of data.match) query.match[item.field] = {...}\<close>,
  started on \<^verbatim>\<open>query.match = {}\<close>.
\<close>

fun match_loop :: "match_item list \<Rightarrow> props \<Rightarrow> props" where
  "match_loop [] m = m"
| "match_loop (item # items) m =
     match_loop items (obj_set m (mfield item) (condition (operator item) (mvalue item)))"

text \<open>
  The two branches of \<^verbatim>\<open>if (Array.isArray(data.match))\<close>. The \<open>else\<close> branch is
  \<^verbatim>\<open>query.match = { [data.match.field]: { [`$${data.match.operator}`]: data.match.value } }\<close>:
  it reads the three members \<open>field\<close>, \<open>operator\<close> and \<open>value\<close> of the mapping
  itself. An object literal with a computed key always defines an own property.
\<close>

fun build_match :: "match_spec \<Rightarrow> props" where
  "build_match (MatchList items) = match_loop items []"
| "build_match (MatchMap m) =
     [(to_string (obj_get m ''field''),
       condition (to_string (obj_get m ''operator'')) (obj_get m ''value''))]"

text \<open>
  \<^verbatim>\<open>item => ({ field: item.field, direction: item.direction ?? (item.order === 'desc' ? -1 : 1) })\<close>
\<close>

definition order_entry :: "orderBy_item \<Rightarrow> jsval" where
  "order_entry item =
     JObj [(''field'', JStr (ofield item)),
           (''direction'',
            JNum (case direction item of
                    Some d \<Rightarrow> d
                  | None \<Rightarrow> (if order item = Some ''desc'' then - 1 else 1)))]"

text \<open>
  The query object of \<^verbatim>\<open>pulse.find\<close>, before
  \<^verbatim>\<open>encodeURIComponent(JSON.stringify(query))\<close>. Each statement of the source is
  one step; the assignments \<^verbatim>\<open>query.page = ...\<close> use fixed names.
\<close>

definition find_query :: "findData \<Rightarrow> props" where
  "find_query d =
     (let q0 = [];
          q1 = (case match d of
                  None \<Rightarrow> q0
                | Some m \<Rightarrow> obj_set q0 ''match'' (JObj (build_match m)));
          q2 = (case page d of None \<Rightarrow> q1 | Some p \<Rightarrow> obj_set q1 ''page'' (JNum p));
          q3 = (case pageSize d of None \<Rightarrow> q2 | Some p \<Rightarrow> obj_set q2 ''pageSize'' (JNum p));
          q4 = (case search d of
                  None \<Rightarrow> q3
                | Some s \<Rightarrow> if truthy s then obj_set q3 ''search'' s else q3);
          q5 = (case orderBy d of
                  None \<Rightarrow> q4
                | Some os \<Rightarrow> obj_set q4 ''orderBy'' (JArr (map order_entry os)))
      in q5)"

subsection \<open>\<^verbatim>\<open>src/maxflow.ts\<close>\<close>

text \<open>Errors a promise is rejected with: \<^verbatim>\<open>new Error(msg)\<close> of \<open>validateConfig\<close>, a
  \<^verbatim>\<open>TypeError\<close> of the language, and the error of a failed HTTP request (opaque).\<close>

datatype error = Error string | TypeError | RequestError jsval

text \<open>
  This variant reads \<^verbatim>\<open>query.match[item.field]\<close> before it assigns, and a read
  follows the prototype chain. The match object under construction is therefore
  kept with its prototype: \<open>None\<close> stands for \<^verbatim>\<open>Object.prototype\<close>, \<open>Some ps\<close> for
  an object literal with own properties \<open>ps\<close> that a \<open>__proto__\<close> assignment put
  in its place.
\<close>

record match_obj =
  own :: props
  proto :: "props option"

definition object_prototype_names :: "string list" where
  "object_prototype_names =
     [''constructor'', ''__defineGetter__'', ''__defineSetter__'', ''hasOwnProperty'',
      ''__lookupGetter__'', ''__lookupSetter__'', ''isPrototypeOf'',
      ''propertyIsEnumerable'', ''toString'', ''valueOf'', ''__proto__'',
      ''toLocaleString'']"

text \<open>Whether \<^verbatim>\<open>o[k]\<close> is truthy: own property, then the prototype chain.\<close>

definition read_truthy :: "match_obj \<Rightarrow> string \<Rightarrow> bool" where
  "read_truthy mo k =
     (case map_of (own mo) k of
        Some v \<Rightarrow> truthy v
      | None \<Rightarrow>
          (case proto mo of
             None \<Rightarrow> k \<in> set object_prototype_names
           | Some ps \<Rightarrow>
               (case map_of ps k of
                  Some v \<Rightarrow> truthy v
                | None \<Rightarrow> k \<in> set object_prototype_names)))"

text \<open>\<^verbatim>\<open>o[k] = { ... }\<close> where the value is an object literal with properties \<open>ps\<close>.\<close>

definition assign_obj :: "match_obj \<Rightarrow> string \<Rightarrow> props \<Rightarrow> match_obj" where
  "assign_obj mo k ps =
     (if k = ''__proto__'' \<and> map_of (own mo) k = None then mo\<lparr>proto := Some ps\<rparr>
      else mo\<lparr>own := set_own (own mo) k (JObj ps)\<rparr>)"

text \<open>
  \<^verbatim>\<open>for (const item of data.match) {
    if (!query.match[item.field]) { query.match[item.field] = {}; }
    query.match[item.field] = { [`$${item.operator}`]: item.value };
  }\<close>
\<close>

fun match_loop_maxflow :: "match_item list \<Rightarrow> match_obj \<Rightarrow> match_obj" where
  "match_loop_maxflow [] mo = mo"
| "match_loop_maxflow (item # items) mo =
     (let mo1 = (if \<not> read_truthy mo (mfield item) then assign_obj mo (mfield item) [] else mo)
      in match_loop_maxflow items
           (assign_obj mo1 (mfield item) [(''$'' @ operator item, mvalue item)]))"

text \<open>
  The \<open>else\<close> branch of this variant is
  \<^verbatim>\<open>query.match[data.match.field] = {...}\<close> with \<open>query.match\<close> never assigned:
  a property of \<open>undefined\<close> is set, which throws a \<^verbatim>\<open>TypeError\<close>.
\<close>

fun build_match_maxflow :: "match_spec \<Rightarrow> error + props" where
  "build_match_maxflow (MatchList items) =
     Inr (own (match_loop_maxflow items \<lparr>own = [], proto = None\<rparr>))"
| "build_match_maxflow (MatchMap m) = Inl TypeError"

text \<open>
  \<^verbatim>\<open>item => ({ field: item.field, direction: item.direction || (item.order === 'desc' ? -1 : 1) })\<close>
\<close>

definition order_entry_maxflow :: "orderBy_item \<Rightarrow> jsval" where
  "order_entry_maxflow item =
     JObj [(''field'', JStr (ofield item)),
           (''direction'',
            JNum (case direction item of
                    Some d \<Rightarrow>
                      if d \<noteq> 0 then d else (if order item = Some ''desc'' then - 1 else 1)
                  | None \<Rightarrow> (if order item = Some ''desc'' then - 1 else 1)))]"

definition find_query_maxflow :: "findData \<Rightarrow> error + props" where
  "find_query_maxflow d =
     (case (case match d of
              None \<Rightarrow> Inr []
            | Some m \<Rightarrow>
                (case build_match_maxflow m of
                   Inl e \<Rightarrow> Inl e
                 | Inr mm \<Rightarrow> Inr (obj_set [] ''match'' (JObj mm)))) of
        Inl e \<Rightarrow> Inl e
      | Inr q1 \<Rightarrow>
          Inr (let q2 = (case page d of None \<Rightarrow> q1 | Some p \<Rightarrow> obj_set q1 ''page'' (JNum p));
                   q3 = (case pageSize d of
                           None \<Rightarrow> q2
                         | Some p \<Rightarrow> obj_set q2 ''pageSize'' (JNum p));
                   q4 = (case search d of
                           None \<Rightarrow> q3
                         | Some s \<Rightarrow> if truthy s then obj_set q3 ''search'' s else q3);
                   q5 = (case orderBy d of
                           None \<Rightarrow> q4
                         | Some os \<Rightarrow>
                             obj_set q4 ''orderBy'' (JArr (map order_entry_maxflow os)))
               in q5))"

section \<open>The client and its run-time\<close>

text \<open>
  \<^verbatim>\<open>interface MaxflowConfig\<close>, \<^verbatim>\<open>PushOptions\<close>, \<^verbatim>\<open>RunOptions\<close> and
  \<^verbatim>\<open>QueueItem\<close>. The members \<open>resolve\<close> and \<open>reject\<close> of a queue item are the two
  callbacks of one promise; \<open>promise\<close> is the identity of that promise. An absent
  member of \<open>RunOptions\<close> is \<open>JUndefined\<close>.
\<close>

record MaxflowConfig =
  cfg_apiKey :: "string option"
  cfg_teamId :: "string option"
  cfg_baseURL :: "string option"
  cfg_apiSecret :: "string option"

record PushOptions =
  debounce :: "int option"
  debounce_max_wait :: "int option"
  immediately :: "bool option"

record RunOptions =
  run_data :: jsval
  params :: jsval
  callback_url :: jsval

record QueueItem =
  data :: jsval
  timestamp :: nat
  promise :: nat
  options :: "PushOptions option"

text \<open>
  The Axios instance as far as \<open>http()\<close> writes it: its default base URL and the
  three authentication headers.
\<close>

record AxiosInstance =
  defaults_baseURL :: string
  x_api_key :: "string option"
  x_max_team_id :: "string option"
  x_api_secret :: "string option"

text \<open>
  An HTTP request handed to Axios. \<open>GET_find q\<close> is the request
  \<^verbatim>\<open>GET /api/pulse/?o=\<close> followed by \<^verbatim>\<open>encodeURIComponent(JSON.stringify(q))\<close>, of \<open>pulse.find\<close>;
  the encoding of the query object is not modelled.
\<close>

datatype request =
    POST string jsval
  | GET string
  | GET_find props
  | PUT string jsval
  | DELETE string

text \<open>
  A call of \<open>resolve\<close> or \<open>reject\<close> of a promise. The log of these calls is kept
  in the state; a promise is settled by the first call made on it.
\<close>

datatype settlement = Resolved nat jsval | Rejected nat error

fun settled_promise :: "settlement \<Rightarrow> nat" where
  "settled_promise (Resolved p r) = p"
| "settled_promise (Rejected p e) = p"

text \<open>
  Who awaits a request: the promise an \<^verbatim>\<open>async\<close> operation returned to its caller,
  or the handler that \<open>processQueue\<close> maps over its snapshot (it holds its item and,
  for the enclosing \<^verbatim>\<open>try/catch\<close>, the snapshot).
\<close>

datatype waiter = Caller nat | Item QueueItem "QueueItem list"

fun awaited_promise :: "waiter \<Rightarrow> nat" where
  "awaited_promise (Caller p) = p"
| "awaited_promise (Item item snapshot) = promise item"

text \<open>
  The fields of \<^verbatim>\<open>class MaxflowClient\<close>, followed by the part of the run-time the
  client acts on: the live timers (handle and delay; every callback is
  \<^verbatim>\<open>() => this.processQueue()\<close>), the requests sent so far, the requests in flight
  (index into \<open>requests\<close> and who awaits it), the promises created so far and the
  settlement log.
\<close>

record client =
  apiKey :: "string option"
  apiSecret :: "string option"
  teamId :: "string option"
  baseURL :: string
  queue :: "QueueItem list"
  pushTimeout :: "nat option"
  maxAgeTimeout :: "nat option"
  axiosInstance :: "AxiosInstance option"
  timers :: "(nat \<times> int) list"
  next_timer :: nat
  requests :: "request list"
  inflight :: "(nat \<times> waiter) list"
  next_promise :: nat
  settlements :: "settlement list"

definition QUEUE_DELAY :: int where
  "QUEUE_DELAY = 360"

definition MAX_QUEUE_TIME :: int where
  "MAX_QUEUE_TIME = 1000"

text \<open>
  \<^verbatim>\<open>constructor(config?: MaxflowConfig)\<close>, with the field initialisers of the class.
  Timer handles start at 1 (a handle is truthy).
\<close>

definition constructor :: "MaxflowConfig option \<Rightarrow> client" where
  "constructor config =
     (let c = \<lparr>apiKey = None, apiSecret = None, teamId = None,
                baseURL = ''https://maxflow.cloud'', queue = [], pushTimeout = None,
                maxAgeTimeout = None, axiosInstance = None, timers = [], next_timer = 1,
                requests = [], inflight = [], next_promise = 0, settlements = []\<rparr>
      in case config of
           None \<Rightarrow> c
         | Some cfg \<Rightarrow>
             c\<lparr>apiKey := cfg_apiKey cfg, teamId := cfg_teamId cfg,
               apiSecret := cfg_apiSecret cfg,
               baseURL := (case cfg_baseURL cfg of None \<Rightarrow> baseURL c | Some u \<Rightarrow> u)\<rparr>)"

text \<open>The setters.\<close>

definition setApiKey :: "string \<Rightarrow> client \<Rightarrow> client" where
  "setApiKey k c = c\<lparr>apiKey := Some k\<rparr>"

definition setTeamId :: "string \<Rightarrow> client \<Rightarrow> client" where
  "setTeamId i c = c\<lparr>teamId := Some i\<rparr>"

definition setBaseURL :: "string \<Rightarrow> client \<Rightarrow> client" where
  "setBaseURL u c = c\<lparr>baseURL := u\<rparr>"

text \<open>\<^verbatim>\<open>!this.apiKey\<close>: \<open>null\<close> and the empty string are falsy.\<close>

definition unset :: "string option \<Rightarrow> bool" where
  "unset x = (case x of None \<Rightarrow> True | Some s \<Rightarrow> s = [])"

definition validateConfig :: "client \<Rightarrow> error + unit" where
  "validateConfig c =
     (if unset (apiKey c) then Inl (Error ''API Key is not set'')
      else if unset (teamId c) then Inl (Error ''Team ID is not set'')
      else if unset (apiSecret c) then Inl (Error ''API Secret is not set'')
      else Inr ())"

text \<open>
  \<open>http()\<close>: validate and create the instance on first use, then write the headers
  and the base URL on every call. \<open>Inl\<close> is the exception of \<open>validateConfig\<close>.
\<close>

definition http :: "client \<Rightarrow> error + client" where
  "http c =
     (case (case axiosInstance c of
              Some i \<Rightarrow> Inr i
            | None \<Rightarrow>
                (case validateConfig c of
                   Inl e \<Rightarrow> Inl e
                 | Inr u \<Rightarrow>
                     Inr \<lparr>defaults_baseURL = baseURL c, x_api_key = None,
                          x_max_team_id = None, x_api_secret = None\<rparr>)) of
        Inl e \<Rightarrow> Inl e
      | Inr i \<Rightarrow>
          Inr (c\<lparr>axiosInstance :=
                    Some (i\<lparr>x_api_key := apiKey c, x_max_team_id := teamId c,
                            x_api_secret := apiSecret c, defaults_baseURL := baseURL c\<rparr>)\<rparr>))"

text \<open>\<open>setTimeout(() => this.processQueue(), delay)\<close> and \<open>clearTimeout(h)\<close>.\<close>

definition setTimeout :: "int \<Rightarrow> client \<Rightarrow> nat \<times> client" where
  "setTimeout delay c =
     (next_timer c,
      c\<lparr>timers := timers c @ [(next_timer c, delay)], next_timer := Suc (next_timer c)\<rparr>)"

definition clearTimeout :: "nat \<Rightarrow> client \<Rightarrow> client" where
  "clearTimeout h c = c\<lparr>timers := filter (\<lambda>t. fst t \<noteq> h) (timers c)\<rparr>"

text \<open>Axios starts a request; whoever awaits it is recorded with its index.\<close>

definition send :: "request \<Rightarrow> waiter \<Rightarrow> client \<Rightarrow> client" where
  "send r w c =
     c\<lparr>requests := requests c @ [r], inflight := inflight c @ [(length (requests c), w)]\<rparr>"

text \<open>
  The handler of \<open>processQueue\<close>, run on the outcome of its item's request:
  \<^verbatim>\<open>try { item.resolve(await this.pulse.create(item.data)); } catch (error) { item.reject(error); }\<close>
  Its own promise is fulfilled in both cases (\<open>Inr ()\<close>): the resolving functions
  of a promise do not throw.
\<close>

definition item_handler ::
  "error + jsval \<Rightarrow> QueueItem \<Rightarrow> settlement list \<Rightarrow> (error + unit) \<times> settlement list" where
  "item_handler outcome item log =
     (case outcome of
        Inr response \<Rightarrow> (Inr (), log @ [Resolved (promise item) response])
      | Inl e \<Rightarrow> (Inr (), log @ [Rejected (promise item) e]))"

text \<open>
  The awaited promise is settled with \<open>outcome\<close>. For a caller the promise of the
  \<^verbatim>\<open>async\<close> operation takes the outcome. For a queue item the handler runs; were
  the handler to reject, \<^verbatim>\<open>Promise.all\<close> would reject and the \<open>catch\<close> of
  \<open>processQueue\<close> would call \<open>reject\<close> on every item of the snapshot.
\<close>

definition settle :: "waiter \<Rightarrow> error + jsval \<Rightarrow> client \<Rightarrow> client" where
  "settle w outcome c =
     (case w of
        Caller p \<Rightarrow>
          c\<lparr>settlements := settlements c @
               [case outcome of Inr response \<Rightarrow> Resolved p response | Inl e \<Rightarrow> Rejected p e]\<rparr>
      | Item item snapshot \<Rightarrow>
          (case item_handler outcome item (settlements c) of
             (Inr u, log) \<Rightarrow> c\<lparr>settlements := log\<rparr>
           | (Inl e, log) \<Rightarrow>
               c\<lparr>settlements := log @ map (\<lambda>i. Rejected (promise i) e) snapshot\<rparr>))"

text \<open>
  The body shared by the \<^verbatim>\<open>async\<close> operations, \<^verbatim>\<open>this.http().verb(...)\<close>: an
  exception of \<open>http()\<close> rejects the promise of the operation before anything is
  sent; otherwise the request is sent and the promise follows its outcome. The
  rejection runs as a microtask of the same turn of the event loop, before any
  timer or response; the model records it at once, in the order of the calls.
\<close>

definition request_op :: "request \<Rightarrow> waiter \<Rightarrow> client \<Rightarrow> client" where
  "request_op r w c = (case http c of Inl e \<Rightarrow> settle w (Inl e) c | Inr c' \<Rightarrow> send r w c')"

text \<open>The members of \<open>pulse\<close>, \<open>run\<close> and \<open>getExecutionStatus\<close>.\<close>

definition pulse_create :: "jsval \<Rightarrow> waiter \<Rightarrow> client \<Rightarrow> client" where
  "pulse_create d = request_op (POST ''/api/pulse'' d)"

definition pulse_get :: "string \<Rightarrow> waiter \<Rightarrow> client \<Rightarrow> client" where
  "pulse_get pulse_id = request_op (GET (''/api/pulse/'' @ pulse_id))"

definition pulse_find :: "findData \<Rightarrow> waiter \<Rightarrow> client \<Rightarrow> client" where
  "pulse_find d = request_op (GET_find (find_query d))"

definition pulse_delete :: "string \<Rightarrow> waiter \<Rightarrow> client \<Rightarrow> client" where
  "pulse_delete pulse_id = request_op (DELETE (''/api/pulse/'' @ pulse_id))"

definition pulse_update :: "string \<Rightarrow> jsval \<Rightarrow> waiter \<Rightarrow> client \<Rightarrow> client" where
  "pulse_update pulse_id d = request_op (PUT (''/api/pulse/'' @ pulse_id) d)"

definition run :: "string \<Rightarrow> RunOptions \<Rightarrow> waiter \<Rightarrow> client \<Rightarrow> client" where
  "run workflow_id opts =
     request_op
       (POST (''/api/workflow/run/'' @ workflow_id)
          (JObj [(''params'', params opts), (''payload'', run_data opts),
                 (''callback_url'', callback_url opts)]))"

definition getExecutionStatus :: "string \<Rightarrow> waiter \<Rightarrow> client \<Rightarrow> client" where
  "getExecutionStatus execution_id =
     request_op (GET (''/api/workflow/log?logId='' @ execution_id))"

text \<open>\<open>pulse.find\<close> of \<^verbatim>\<open>src/maxflow.ts\<close>: building the query can throw.\<close>

definition pulse_find_maxflow :: "findData \<Rightarrow> waiter \<Rightarrow> client \<Rightarrow> client" where
  "pulse_find_maxflow d w c =
     (case find_query_maxflow d of
        Inl e \<Rightarrow> settle w (Inl e) c
      | Inr q \<Rightarrow> request_op (GET_find q) w c)"

subsection \<open>\<open>push\<close> and \<open>processQueue\<close>\<close>

definition is_immediate :: "PushOptions option \<Rightarrow> bool" where
  "is_immediate opts = (case opts of None \<Rightarrow> False | Some v \<Rightarrow> immediately v = Some True)"

definition debounceDelay :: "PushOptions option \<Rightarrow> int" where
  "debounceDelay opts =
     (case opts of
        None \<Rightarrow> QUEUE_DELAY
      | Some v \<Rightarrow> (case debounce v of None \<Rightarrow> QUEUE_DELAY | Some d \<Rightarrow> d))"

definition maxWait :: "PushOptions option \<Rightarrow> int" where
  "maxWait opts =
     (case opts of
        None \<Rightarrow> MAX_QUEUE_TIME
      | Some v \<Rightarrow> (case debounce_max_wait v of None \<Rightarrow> MAX_QUEUE_TIME | Some d \<Rightarrow> d))"

text \<open>
  The executor of the promise that \<open>push\<close> returns when \<open>immediately\<close> is not set;
  \<open>p\<close> is that promise and \<open>now\<close> the value of \<^verbatim>\<open>Date.now()\<close>.
\<close>

definition enqueue :: "nat \<Rightarrow> nat \<Rightarrow> jsval \<Rightarrow> PushOptions option \<Rightarrow> client \<Rightarrow> client" where
  "enqueue p now reqdata opts c =
     (let c1 = c\<lparr>queue := queue c @
                   [\<lparr>data = reqdata, timestamp = now, promise = p, options = opts\<rparr>]\<rparr>;
          c2 = (case pushTimeout c1 of None \<Rightarrow> c1 | Some h \<Rightarrow> clearTimeout h c1);
          (h, c3) = setTimeout (debounceDelay opts) c2;
          c4 = c3\<lparr>pushTimeout := Some h\<rparr>
      in if length (queue c4) = 1
         then (let (h', c5) = setTimeout (maxWait opts) c4 in c5\<lparr>maxAgeTimeout := Some h'\<rparr>)
         else c4)"

text \<open>
  \<^verbatim>\<open>async push(reqdata, options)\<close>. The result is the promise returned and the new
  state. With \<open>immediately\<close> the promise is the one of \<open>pulse.create\<close>.
\<close>

definition push :: "nat \<Rightarrow> jsval \<Rightarrow> PushOptions option \<Rightarrow> client \<Rightarrow> nat \<times> client" where
  "push now reqdata opts c =
     (let p = next_promise c; c0 = c\<lparr>next_promise := Suc p\<rparr>
      in if is_immediate opts then (p, pulse_create reqdata (Caller p) c0)
         else (p, enqueue p now reqdata opts c0))"

text \<open>
  \<^verbatim>\<open>snapshot.map(async (item) => ...)\<close>: the handlers start in order, and each calls
  \<open>pulse.create\<close> at once.
\<close>

fun dispatch :: "QueueItem list \<Rightarrow> QueueItem list \<Rightarrow> client \<Rightarrow> client" where
  "dispatch [] snapshot c = c"
| "dispatch (item # items) snapshot c =
     dispatch items snapshot (pulse_create (data item) (Item item snapshot) c)"

definition processQueue :: "client \<Rightarrow> client" where
  "processQueue c =
     (if length (queue c) = 0 then c
      else
        (let snapshot = queue c;
             c1 = c\<lparr>queue := []\<rparr>;
             c2 = (case pushTimeout c1 of
                     None \<Rightarrow> c1
                   | Some h \<Rightarrow> (clearTimeout h c1)\<lparr>pushTimeout := None\<rparr>);
             c3 = (case maxAgeTimeout c2 of
                     None \<Rightarrow> c2
                   | Some h \<Rightarrow> (clearTimeout h c2)\<lparr>maxAgeTimeout := None\<rparr>)
         in dispatch snapshot snapshot c3))"

subsection \<open>Events\<close>

text \<open>
  The operations that return a promise, and what can happen to a client: a call
  of an operation or of a setter, a live timer firing, the callback of a timer
  running although the timer is no longer live (the second of two timers that
  expire together), and the completion of a request in flight.
\<close>

datatype operation =
    Push jsval "PushOptions option"
  | Run string RunOptions
  | GetExecutionStatus string
  | PulseCreate jsval
  | PulseGet string
  | PulseFind findData
  | PulseDelete string
  | PulseUpdate string jsval

text \<open>
  A call of a public operation at time \<open>now\<close>. The first component is \<open>Inr p\<close> when
  the call returns the promise \<open>p\<close> and \<open>Inl e\<close> when it throws \<open>e\<close> to the caller.
  Every operation is an \<^verbatim>\<open>async\<close> function or arrow: the call creates the promise,
  runs the body, and an exception of the body rejects the promise. \<open>async\<close> is
  that wrapper for the operations whose body is one request.
\<close>

definition async :: "(waiter \<Rightarrow> client \<Rightarrow> client) \<Rightarrow> client \<Rightarrow> (error + nat) \<times> client" where
  "async body c =
     (let p = next_promise c in (Inr p, body (Caller p) (c\<lparr>next_promise := Suc p\<rparr>)))"

definition call :: "nat \<Rightarrow> operation \<Rightarrow> client \<Rightarrow> (error + nat) \<times> client" where
  "call now opn c =
     (case opn of
        Push reqdata opts \<Rightarrow> (case push now reqdata opts c of (p, c') \<Rightarrow> (Inr p, c'))
      | Run workflow_id opts \<Rightarrow> async (run workflow_id opts) c
      | GetExecutionStatus execution_id \<Rightarrow> async (getExecutionStatus execution_id) c
      | PulseCreate d \<Rightarrow> async (pulse_create d) c
      | PulseGet pulse_id \<Rightarrow> async (pulse_get pulse_id) c
      | PulseFind d \<Rightarrow> async (pulse_find d) c
      | PulseDelete pulse_id \<Rightarrow> async (pulse_delete pulse_id) c
      | PulseUpdate pulse_id d \<Rightarrow> async (pulse_update pulse_id d) c)"

datatype event =
    Call nat operation
  | SetApiKey string
  | SetTeamId string
  | SetBaseURL string
  | Fire nat
  | StaleFire
  | Complete nat "error + jsval"

fun step :: "event \<Rightarrow> client \<Rightarrow> client" where
  "step (Call now opn) c = snd (call now opn c)"
| "step (SetApiKey k) c = setApiKey k c"
| "step (SetTeamId i) c = setTeamId i c"
| "step (SetBaseURL u) c = setBaseURL u c"
| "step (Fire h) c =
     (case map_of (timers c) h of
        None \<Rightarrow> c
      | Some delay \<Rightarrow> processQueue (c\<lparr>timers := filter (\<lambda>t. fst t \<noteq> h) (timers c)\<rparr>))"
| "step StaleFire c = processQueue c"
| "step (Complete rid outcome) c =
     (case map_of (inflight c) rid of
        None \<Rightarrow> c
      | Some w \<Rightarrow> settle w outcome (c\<lparr>inflight := filter (\<lambda>e. fst e \<noteq> rid) (inflight c)\<rparr>))"

fun exec :: "event list \<Rightarrow> client \<Rightarrow> client" where
  "exec [] c = c"
| "exec (e # es) c = exec es (step e c)"

text \<open>How often \<open>resolve\<close> or \<open>reject\<close> of promise \<open>p\<close> has been called.\<close>

definition settle_count :: "client \<Rightarrow> nat \<Rightarrow> nat" where
  "settle_count c p = length (filter (\<lambda>s. settled_promise s = p) (settlements c))"

text \<open>The promises of the queued items, and those awaiting a request in flight.\<close>

definition queued :: "client \<Rightarrow> nat list" where
  "queued c = map promise (queue c)"

definition waiting :: "client \<Rightarrow> nat list" where
  "waiting c = map (\<lambda>e. awaited_promise (snd e)) (inflight c)"

section \<open>Auxiliary definitions for the proofs\<close>

text \<open>The entry that settling promise \<open>p\<close> with an outcome adds to the log.\<close>

definition settlement_of :: "nat \<Rightarrow> error + jsval \<Rightarrow> settlement" where
  "settlement_of p outcome =
     (case outcome of Inr response \<Rightarrow> Resolved p response | Inl e \<Rightarrow> Rejected p e)"

text \<open>
  Where the promises are: with a queued item, awaiting a request in flight, or
  settled. A promise occurs as often as it is found.
\<close>

definition promises_of :: "client \<Rightarrow> nat multiset" where
  "promises_of c =
     mset (queued c) + mset (waiting c) + mset (map settled_promise (settlements c))"

text \<open>Requests in flight are indexed by distinct positions of \<open>requests\<close>.\<close>

definition inflight_ok :: "client \<Rightarrow> bool" where
  "inflight_ok c \<longleftrightarrow>
     distinct (map fst (inflight c)) \<and> (\<forall>e \<in> set (inflight c). fst e < length (requests c))"

text \<open>
  Timer handles are below \<open>next_timer\<close>, the two timer fields never hold the same
  handle, and while the queue is not empty both fields hold live timers.
\<close>

definition timers_ok :: "client \<Rightarrow> bool" where
  "timers_ok c \<longleftrightarrow>
     (\<forall>t \<in> set (timers c). fst t < next_timer c) \<and>
     (\<forall>h. pushTimeout c = Some h \<longrightarrow> h < next_timer c) \<and>
     (\<forall>h. maxAgeTimeout c = Some h \<longrightarrow> h < next_timer c) \<and>
     (\<forall>h. pushTimeout c = Some h \<longrightarrow> maxAgeTimeout c \<noteq> Some h) \<and>
     (queue c \<noteq> [] \<longrightarrow>
        (\<exists>h h'. pushTimeout c = Some h \<and> maxAgeTimeout c = Some h' \<and>
                 h \<in> fst ` set (timers c) \<and> h' \<in> fst ` set (timers c)))"

text \<open>
  The invariant of a client: every promise created so far is in exactly one
  place, once.
\<close>

definition inv :: "client \<Rightarrow> bool" where
  "inv c \<longleftrightarrow> promises_of c = mset [0..<next_promise c] \<and> inflight_ok c \<and> timers_ok c"

text \<open>The live timers after \<^verbatim>\<open>if (h) clearTimeout(h)\<close>.\<close>

definition cleared :: "nat option \<Rightarrow> (nat \<times> int) list \<Rightarrow> (nat \<times> int) list" where
  "cleared h ts = (case h of None \<Rightarrow> ts | Some k \<Rightarrow> filter (\<lambda>t. fst t \<noteq> k) ts)"

text \<open>
  The rest of a run: the quiet-period timer that is pending fires, then every
  request in flight completes, request \<open>rid\<close> with outcome \<open>outcomes rid\<close>.
\<close>

fun complete_all :: "(nat \<Rightarrow> error + jsval) \<Rightarrow> nat list \<Rightarrow> client \<Rightarrow> client" where
  "complete_all outcomes [] c = c"
| "complete_all outcomes (rid # rids) c =
     complete_all outcomes rids (step (Complete rid (outcomes rid)) c)"

definition drain :: "(nat \<Rightarrow> error + jsval) \<Rightarrow> client \<Rightarrow> client" where
  "drain outcomes c =
     (let c1 = (case pushTimeout c of None \<Rightarrow> c | Some h \<Rightarrow> step (Fire h) c)
      in complete_all outcomes (map fst (inflight c1)) c1)"

text \<open>A configuration with all credentials, for the instances below.\<close>

definition example_config :: MaxflowConfig where
  "example_config =
     \<lparr>cfg_apiKey = Some ''key'', cfg_teamId = Some ''team'', cfg_baseURL = None,
      cfg_apiSecret = Some ''secret''\<rparr>"

text \<open>
  The requests \<open>base + k\<close>, for \<open>k\<close> in \<open>ks\<close> in this order, complete with outcomes
  \<open>outcomes k\<close>.
\<close>

fun complete_in_order ::
  "nat \<Rightarrow> (nat \<Rightarrow> error + jsval) \<Rightarrow> nat list \<Rightarrow> client \<Rightarrow> client" where
  "complete_in_order base outcomes [] c = c"
| "complete_in_order base outcomes (k # ks) c =
     complete_in_order base outcomes ks (step (Complete (base + k) (outcomes k)) c)"

subsection \<open>Settlement of queued items\<close>

text \<open>The calls of \<open>resolve\<close> and \<open>reject\<close> on promise \<open>p\<close>, in the order made.\<close>

definition calls_on :: "nat \<Rightarrow> client \<Rightarrow> settlement list" where
  "calls_on p c = filter (\<lambda>s. settled_promise s = p) (settlements c)"

text \<open>
  The item of promise \<open>p\<close> holds the data \<open>d\<close> while it is queued, and its request in
  flight is the \<^verbatim>\<open>POST\<close> of \<open>d\<close> to \<^verbatim>\<open>/api/pulse\<close>, awaited by the handler of the item.
\<close>

definition carries :: "nat \<Rightarrow> jsval \<Rightarrow> client \<Rightarrow> bool" where
  "carries p d c \<longleftrightarrow>
     (\<forall>item \<in> set (queue c). promise item = p \<longrightarrow> data item = d) \<and>
     (\<forall>e \<in> set (inflight c). awaited_promise (snd e) = p \<longrightarrow>
        (\<exists>item snapshot. snd e = Item item snapshot \<and> data item = d) \<and>
        fst e < length (requests c) \<and> requests c ! fst e = POST ''/api/pulse'' d)"

text \<open>The state in which the pending quiet-period timer has fired.\<close>

definition fired :: "client \<Rightarrow> client" where
  "fired c = (case pushTimeout c of None \<Rightarrow> c | Some h \<Rightarrow> step (Fire h) c)"

section \<open>Proofs\<close>

subsection \<open>What the operations change\<close>

lemma settlement_of_promise [simp]: "settled_promise (settlement_of p outcome) = p"
  by (cases outcome) (simp_all add: settlement_of_def)

lemma settle_eq:
  "settle w outcome c =
     c\<lparr>settlements := settlements c @ [settlement_of (awaited_promise w) outcome]\<rparr>"
  by (cases w; cases outcome) (simp_all add: settle_def item_handler_def settlement_of_def)

lemma http_cases:
  "(\<exists>e. http c = Inl e \<and> axiosInstance c = None \<and> validateConfig c = Inl e) \<or>
   (\<exists>i. http c = Inr (c\<lparr>axiosInstance := Some i\<rparr>))"
proof (cases "axiosInstance c")
  case None
  then show ?thesis
    by (cases "validateConfig c") (auto simp: http_def)
next
  case (Some i)
  then show ?thesis
    by (auto simp: http_def)
qed

lemma request_op_cases:
  "(\<exists>e. http c = Inl e \<and>
        request_op r w c =
          c\<lparr>settlements := settlements c @ [Rejected (awaited_promise w) e]\<rparr>) \<or>
   (\<exists>i. http c = Inr (c\<lparr>axiosInstance := Some i\<rparr>) \<and>
        request_op r w c =
          c\<lparr>axiosInstance := Some i, requests := requests c @ [r],
            inflight := inflight c @ [(length (requests c), w)]\<rparr>)"
  using http_cases [of c]
  by (auto simp: request_op_def settle_eq settlement_of_def send_def)

lemma request_op_frame [simp]:
  "queue (request_op r w c) = queue c"
  "pushTimeout (request_op r w c) = pushTimeout c"
  "maxAgeTimeout (request_op r w c) = maxAgeTimeout c"
  "timers (request_op r w c) = timers c"
  "next_timer (request_op r w c) = next_timer c"
  "next_promise (request_op r w c) = next_promise c"
  "apiKey (request_op r w c) = apiKey c"
  "apiSecret (request_op r w c) = apiSecret c"
  "teamId (request_op r w c) = teamId c"
  "baseURL (request_op r w c) = baseURL c"
  using request_op_cases [of c r w] by (elim disjE exE conjE; simp)+

lemma promises_of_request_op:
  "promises_of (request_op r w c) = promises_of c + {#awaited_promise w#}"
  using request_op_cases [of c r w] by (auto simp: promises_of_def queued_def waiting_def)

lemma inflight_ok_request_op: "inflight_ok c \<Longrightarrow> inflight_ok (request_op r w c)"
  using request_op_cases [of c r w] by (fastforce simp: inflight_ok_def less_Suc_eq)

lemma dispatch_frame [simp]:
  "queue (dispatch items snapshot c) = queue c"
  "pushTimeout (dispatch items snapshot c) = pushTimeout c"
  "maxAgeTimeout (dispatch items snapshot c) = maxAgeTimeout c"
  "timers (dispatch items snapshot c) = timers c"
  "next_timer (dispatch items snapshot c) = next_timer c"
  "next_promise (dispatch items snapshot c) = next_promise c"
  by (induction items arbitrary: c; simp add: pulse_create_def)+

lemma promises_of_dispatch:
  "promises_of (dispatch items snapshot c) = promises_of c + mset (map promise items)"
  by (induction items arbitrary: c) (simp_all add: pulse_create_def promises_of_request_op)

lemma inflight_ok_dispatch: "inflight_ok c \<Longrightarrow> inflight_ok (dispatch items snapshot c)"
  by (induction items arbitrary: c) (simp_all add: pulse_create_def inflight_ok_request_op)

lemma enqueue_eq:
  "enqueue p now d opts c =
     (if queue c = []
      then c\<lparr>queue := [\<lparr>data = d, timestamp = now, promise = p, options = opts\<rparr>],
             timers := cleared (pushTimeout c) (timers c) @
               [(next_timer c, debounceDelay opts), (Suc (next_timer c), maxWait opts)],
             next_timer := Suc (Suc (next_timer c)),
             pushTimeout := Some (next_timer c),
             maxAgeTimeout := Some (Suc (next_timer c))\<rparr>
      else c\<lparr>queue := queue c @ [\<lparr>data = d, timestamp = now, promise = p, options = opts\<rparr>],
             timers := cleared (pushTimeout c) (timers c) @ [(next_timer c, debounceDelay opts)],
             next_timer := Suc (next_timer c),
             pushTimeout := Some (next_timer c)\<rparr>)"
  by (cases "pushTimeout c"; cases "queue c")
     (simp_all add: enqueue_def setTimeout_def clearTimeout_def cleared_def)

lemma processQueue_eq:
  "processQueue c =
     (if queue c = [] then c
      else dispatch (queue c) (queue c)
             (c\<lparr>queue := [], pushTimeout := None, maxAgeTimeout := None,
                timers := cleared (maxAgeTimeout c) (cleared (pushTimeout c) (timers c))\<rparr>))"
  by (cases c)
     (simp add: processQueue_def clearTimeout_def cleared_def Let_def split: option.splits)

subsection \<open>The invariant is kept by every event\<close>

lemma set_cleared: "set (cleared h ts) = {t \<in> set ts. h \<noteq> Some (fst t)}"
  by (cases h) (auto simp: cleared_def)

lemma timers_ok_enqueue:
  assumes "timers_ok c"
  shows "timers_ok (enqueue p now d opts c)"
  using assms
  by (auto simp: enqueue_eq timers_ok_def set_cleared less_Suc_eq image_iff)

lemma timers_ok_processQueue:
  assumes "timers_ok c"
  shows "timers_ok (processQueue c)"
  using assms by (auto simp: processQueue_eq timers_ok_def set_cleared)

lemma timers_ok_expire:
  assumes "timers_ok c"
  shows "timers_ok (processQueue (c\<lparr>timers := filter (\<lambda>t. fst t \<noteq> h) (timers c)\<rparr>))"
  using assms by (auto simp: processQueue_eq timers_ok_def set_cleared)

lemma promises_of_enqueue:
  "promises_of (enqueue p now d opts c) = promises_of c + {#p#}"
  by (simp add: enqueue_eq promises_of_def queued_def waiting_def)

lemma inflight_ok_enqueue: "inflight_ok (enqueue p now d opts c) = inflight_ok c"
  by (simp add: enqueue_eq inflight_ok_def)

lemma next_promise_enqueue [simp]: "next_promise (enqueue p now d opts c) = next_promise c"
  by (simp add: enqueue_eq)

lemma promises_of_processQueue: "promises_of (processQueue c) = promises_of c"
  by (simp add: processQueue_eq promises_of_dispatch)
     (simp add: promises_of_def queued_def waiting_def)

lemma inflight_ok_processQueue:
  assumes "inflight_ok c"
  shows "inflight_ok (processQueue c)"
proof -
  have "inflight_ok (c\<lparr>queue := [], pushTimeout := None, maxAgeTimeout := None,
          timers := cleared (maxAgeTimeout c) (cleared (pushTimeout c) (timers c))\<rparr>)"
    using assms by (simp add: inflight_ok_def)
  then show ?thesis
    using assms by (simp add: processQueue_eq inflight_ok_dispatch)
qed

lemma next_promise_processQueue [simp]: "next_promise (processQueue c) = next_promise c"
  by (simp add: processQueue_eq)

lemma mset_remove_key:
  assumes "distinct (map fst l)" "map_of l k = Some w"
  shows "mset (map f (filter (\<lambda>e. fst e \<noteq> k) l)) + {#f (k, w)#} = mset (map f l)"
  using assms
proof (induction l)
  case Nil
  then show ?case by simp
next
  case (Cons e l)
  show ?case
  proof (cases "fst e = k")
    case True
    with Cons.prems have "e = (k, w)" by (cases e) simp
    moreover from True Cons.prems have "filter (\<lambda>e. fst e \<noteq> k) l = l"
      by (auto simp: filter_id_conv image_iff)
    ultimately show ?thesis by simp
  next
    case False
    with Cons show ?thesis by simp
  qed
qed

lemma promises_of_complete:
  assumes "inflight_ok c"
  shows "promises_of (step (Complete rid outcome) c) = promises_of c"
proof (cases "map_of (inflight c) rid")
  case None
  then show ?thesis by simp
next
  case (Some w)
  from assms have "distinct (map fst (inflight c))" by (simp add: inflight_ok_def)
  from mset_remove_key [OF this Some, of "\<lambda>e. awaited_promise (snd e)"] Some
  show ?thesis
    by (simp add: settle_eq promises_of_def queued_def waiting_def add.assoc)
qed

lemma inflight_ok_complete:
  assumes "inflight_ok c"
  shows "inflight_ok (step (Complete rid outcome) c)"
  using assms
  by (auto simp: settle_eq inflight_ok_def distinct_map_filter split: option.splits)

lemma call_eq:
  "call now opn c =
     (Inr (next_promise c),
      (case opn of
         Push d opts \<Rightarrow>
           if is_immediate opts
           then request_op (POST ''/api/pulse'' d) (Caller (next_promise c))
                  (c\<lparr>next_promise := Suc (next_promise c)\<rparr>)
           else enqueue (next_promise c) now d opts (c\<lparr>next_promise := Suc (next_promise c)\<rparr>)
       | Run workflow_id opts \<Rightarrow>
           run workflow_id opts (Caller (next_promise c))
             (c\<lparr>next_promise := Suc (next_promise c)\<rparr>)
       | GetExecutionStatus execution_id \<Rightarrow>
           getExecutionStatus execution_id (Caller (next_promise c))
             (c\<lparr>next_promise := Suc (next_promise c)\<rparr>)
       | PulseCreate d \<Rightarrow>
           pulse_create d (Caller (next_promise c)) (c\<lparr>next_promise := Suc (next_promise c)\<rparr>)
       | PulseGet pulse_id \<Rightarrow>
           pulse_get pulse_id (Caller (next_promise c))
             (c\<lparr>next_promise := Suc (next_promise c)\<rparr>)
       | PulseFind d \<Rightarrow>
           pulse_find d (Caller (next_promise c)) (c\<lparr>next_promise := Suc (next_promise c)\<rparr>)
       | PulseDelete pulse_id \<Rightarrow>
           pulse_delete pulse_id (Caller (next_promise c))
             (c\<lparr>next_promise := Suc (next_promise c)\<rparr>)
       | PulseUpdate pulse_id d \<Rightarrow>
           pulse_update pulse_id d (Caller (next_promise c))
             (c\<lparr>next_promise := Suc (next_promise c)\<rparr>)))"
  by (cases opn) (simp_all add: call_def async_def push_def Let_def pulse_create_def)

lemmas op_defs =
  run_def getExecutionStatus_def pulse_create_def pulse_get_def pulse_find_def
  pulse_delete_def pulse_update_def

lemma bump_simps [simp]:
  "promises_of (c\<lparr>next_promise := n\<rparr>) = promises_of c"
  "inflight_ok (c\<lparr>next_promise := n\<rparr>) = inflight_ok c"
  "timers_ok (c\<lparr>next_promise := n\<rparr>) = timers_ok c"
  by (simp_all add: promises_of_def queued_def waiting_def inflight_ok_def timers_ok_def)

lemma inv_call:
  assumes "inv c"
  shows "inv (snd (call now opn c))"
proof (cases "\<exists>d opts. opn = Push d opts \<and> \<not> is_immediate opts")
  case True
  then obtain d opts where "opn = Push d opts" "\<not> is_immediate opts" by blast
  with assms show ?thesis
    by (simp add: call_eq inv_def promises_of_enqueue inflight_ok_enqueue timers_ok_enqueue)
next
  case False
  then obtain r where
    r: "snd (call now opn c) =
          request_op r (Caller (next_promise c)) (c\<lparr>next_promise := Suc (next_promise c)\<rparr>)"
    by (cases opn) (auto simp: call_eq op_defs)
  have "timers_ok (request_op r (Caller (next_promise c)) (c\<lparr>next_promise := Suc (next_promise c)\<rparr>))
          = timers_ok c"
    by (simp add: timers_ok_def)
  with assms show ?thesis
    by (simp add: r inv_def promises_of_request_op inflight_ok_request_op)
qed

lemma inv_step:
  assumes "inv c"
  shows "inv (step e c)"
proof (cases e)
  case (Call now opn)
  with assms show ?thesis by (simp add: inv_call)
next
  case (SetApiKey k)
  with assms show ?thesis
    by (simp add: inv_def setApiKey_def promises_of_def queued_def waiting_def inflight_ok_def
        timers_ok_def)
next
  case (SetTeamId i)
  with assms show ?thesis
    by (simp add: inv_def setTeamId_def promises_of_def queued_def waiting_def inflight_ok_def
        timers_ok_def)
next
  case (SetBaseURL u)
  with assms show ?thesis
    by (simp add: inv_def setBaseURL_def promises_of_def queued_def waiting_def inflight_ok_def
        timers_ok_def)
next
  case (Fire h)
  let ?c = "c\<lparr>timers := filter (\<lambda>t. fst t \<noteq> h) (timers c)\<rparr>"
  have "promises_of ?c = promises_of c" "inflight_ok ?c = inflight_ok c"
    by (simp_all add: promises_of_def queued_def waiting_def inflight_ok_def)
  with assms Fire show ?thesis
    by (auto simp: inv_def promises_of_processQueue inflight_ok_processQueue timers_ok_expire
        split: option.splits)
next
  case StaleFire
  with assms show ?thesis
    by (simp add: inv_def promises_of_processQueue inflight_ok_processQueue
        timers_ok_processQueue)
next
  case (Complete rid outcome)
  have "timers_ok (step (Complete rid outcome) c) = timers_ok c"
    by (simp add: settle_eq timers_ok_def split: option.splits)
  moreover have "next_promise (step (Complete rid outcome) c) = next_promise c"
    by (simp add: settle_eq split: option.splits)
  ultimately show ?thesis
    using assms Complete
    by (simp only: inv_def promises_of_complete inflight_ok_complete simp_thms)
qed

lemma inv_exec: "inv c \<Longrightarrow> inv (exec es c)"
  by (induction es arbitrary: c) (simp_all add: inv_step)

lemma inv_constructor: "inv (constructor config)"
  by (cases config)
     (simp_all add: constructor_def inv_def promises_of_def queued_def waiting_def
        inflight_ok_def timers_ok_def)

subsection \<open>Draining a client\<close>

lemma inflight_complete:
  "inflight (step (Complete rid outcome) c) = filter (\<lambda>e. fst e \<noteq> rid) (inflight c)"
proof (cases "map_of (inflight c) rid")
  case None
  then have "rid \<notin> fst ` set (inflight c)" by (simp add: map_of_eq_None_iff)
  then have "filter (\<lambda>e. fst e \<noteq> rid) (inflight c) = inflight c"
    by (auto simp: filter_id_conv)
  with None show ?thesis by simp
next
  case (Some w)
  then show ?thesis by (simp add: settle_eq)
qed

lemma complete_frame [simp]:
  "queue (step (Complete rid outcome) c) = queue c"
  "next_promise (step (Complete rid outcome) c) = next_promise c"
  by (simp_all add: settle_eq split: option.splits)

lemma complete_all_frame [simp]:
  "queue (complete_all outcomes rids c) = queue c"
  "next_promise (complete_all outcomes rids c) = next_promise c"
  by (induction rids arbitrary: c; simp del: step.simps)+

lemma inflight_complete_all:
  "fst ` set (inflight c) \<subseteq> set rids \<Longrightarrow> inflight (complete_all outcomes rids c) = []"
proof (induction rids arbitrary: c)
  case Nil
  then show ?case by simp
next
  case (Cons rid rids)
  have "fst ` set (inflight (step (Complete rid (outcomes rid)) c)) \<subseteq> set rids"
    using Cons.prems by (auto simp: inflight_complete simp del: step.simps)
  from Cons.IH [OF this] show ?case by (simp del: step.simps)
qed

lemma inv_complete_all: "inv c \<Longrightarrow> inv (complete_all outcomes rids c)"
  by (induction rids arbitrary: c) (simp_all add: inv_step del: step.simps)

lemma queue_after_fire:
  assumes "inv c"
  shows "queue (case pushTimeout c of None \<Rightarrow> c | Some h \<Rightarrow> step (Fire h) c) = []"
proof (cases "queue c = []")
  case True
  then show ?thesis
    by (simp add: processQueue_eq split: option.splits)
next
  case False
  with assms obtain h where h: "pushTimeout c = Some h" "h \<in> fst ` set (timers c)"
    by (auto simp: inv_def timers_ok_def)
  then have "map_of (timers c) h \<noteq> None" by (simp add: map_of_eq_None_iff)
  with h False show ?thesis
    by (auto simp: processQueue_eq)
qed

lemma length_filter_count:
  "length (filter (\<lambda>s. f s = p) l) = count (mset (map f l)) p"
  by (induction l) simp_all

lemma count_upt: "count (mset [0..<n]) p = (if p < n then 1 else 0)"
  by (induction n) simp_all

lemma inv_counts:
  assumes "inv c"
  shows "settle_count c p + count (mset (queued c)) p + count (mset (waiting c)) p
           = (if p < next_promise c then 1 else 0)"
proof -
  from assms have "count (promises_of c) p = count (mset [0..<next_promise c]) p"
    by (simp add: inv_def)
  then show ?thesis
    by (simp add: promises_of_def settle_count_def length_filter_count count_upt
        del: mset_upt)
qed

lemma drained_counts:
  assumes "inv c" "p < next_promise c"
  shows "settle_count (drain outcomes c) p = 1"
proof -
  let ?c1 = "case pushTimeout c of None \<Rightarrow> c | Some h \<Rightarrow> step (Fire h) c"
  let ?c2 = "drain outcomes c"
  have inv1: "inv ?c1" using assms(1) by (auto simp: inv_step split: option.splits simp del: step.simps)
  have c2: "?c2 = complete_all outcomes (map fst (inflight ?c1)) ?c1"
    by (simp add: drain_def Let_def del: step.simps)
  have "inv ?c2" unfolding c2 using inv1 by (rule inv_complete_all)
  moreover have "queue ?c2 = []"
    unfolding c2 using queue_after_fire [OF assms(1)] by (simp del: step.simps)
  moreover have "inflight ?c2 = []"
    unfolding c2 by (rule inflight_complete_all) simp
  moreover have "next_promise ?c1 = next_promise c"
    by (simp add: split: option.splits)
  then have "next_promise ?c2 = next_promise c"
    unfolding c2 by (simp del: step.simps)
  ultimately show ?thesis
    using inv_counts [of ?c2 p] assms(2) by (simp add: queued_def waiting_def)
qed

lemma next_promise_step: "next_promise c \<le> next_promise (step e c)"
  by (cases e) (auto simp: call_eq op_defs setApiKey_def setTeamId_def setBaseURL_def
      settle_eq split: option.splits operation.splits)

lemma next_promise_exec: "next_promise c \<le> next_promise (exec es c)"
proof (induction es arbitrary: c)
  case Nil
  then show ?case by simp
next
  case (Cons e es)
  from next_promise_step [of c e] Cons.IH [of "step e c"] show ?case
    by (simp del: step.simps)
qed

subsection \<open>Flushing and the timers\<close>

text \<open>
  Claim C8. \<open>processQueue\<close> on an empty queue returns the state it was given, so
  it sends nothing, settles nothing and throws nothing; the same holds for a timer
  callback that runs after the queue has been flushed.
\<close>

theorem C8_flush_of_empty_queue_is_noop:
  "queue c = [] \<Longrightarrow> processQueue c = c \<and> step StaleFire c = c"
  by (simp add: processQueue_def)

text \<open>An instance: the second callback after a flush changes nothing.\<close>

theorem C8_witness:
  "queue (exec [Call 0 (Push (JStr ''a'') None), Fire 1] (constructor (Some example_config))) = [] \<and>
   requests (exec [Call 0 (Push (JStr ''a'') None), Fire 1] (constructor (Some example_config)))
     = [POST ''/api/pulse'' (JStr ''a'')] \<and>
   exec [Call 0 (Push (JStr ''a'') None), Fire 1, StaleFire] (constructor (Some example_config))
     = exec [Call 0 (Push (JStr ''a'') None), Fire 1] (constructor (Some example_config))"
proof -
  let ?c = "exec [Call 0 (Push (JStr ''a'') None), Fire 1] (constructor (Some example_config))"
  have q: "queue ?c = []" by code_simp
  have r: "requests ?c = [POST ''/api/pulse'' (JStr ''a'')]" by code_simp
  have e: "exec [Call 0 (Push (JStr ''a'') None), Fire 1, StaleFire]
             (constructor (Some example_config)) = step StaleFire ?c"
    by (simp del: step.simps)
  from C8_flush_of_empty_queue_is_noop [OF q] q r e show ?thesis
    by (simp del: step.simps exec.simps)
qed

text \<open>
  Claim C5. For a \<open>push\<close> without \<open>immediately\<close> on a client in any reachable state:
  if the queue was empty, the push starts a new timer, stores its handle in
  \<open>maxAgeTimeout\<close>, and exactly one live timer has that handle, with delay
  \<open>debounce_max_wait\<close> of this push when given (0 included) and 1000 otherwise;
  if the queue was not empty, \<open>maxAgeTimeout\<close> keeps its handle, that timer is
  live with the delay it had, and the only timer the push started is its
  quiet-period timer.
\<close>

theorem C5_max_wait_timer:
  assumes "\<not> is_immediate opts"
    and "c = exec es (constructor config)"
    and "call now (Push d opts) c = (r, c')"
  shows "(queue c = [] \<longrightarrow>
            (\<exists>h. maxAgeTimeout c' = Some h \<and> h \<notin> fst ` set (timers c) \<and>
                 filter (\<lambda>t. fst t = h) (timers c') = [(h, maxWait opts)])) \<and>
         (queue c \<noteq> [] \<longrightarrow>
            (\<exists>h. maxAgeTimeout c = Some h \<and> maxAgeTimeout c' = Some h \<and>
                 h \<in> fst ` set (timers c) \<and>
                 filter (\<lambda>t. fst t = h) (timers c') = filter (\<lambda>t. fst t = h) (timers c)) \<and>
            (\<forall>t \<in> set (timers c'). t \<in> set (timers c) \<or> pushTimeout c' = Some (fst t))) \<and>
         maxWait opts =
           (case opts of
              None \<Rightarrow> 1000
            | Some v \<Rightarrow> (case debounce_max_wait v of None \<Rightarrow> 1000 | Some w \<Rightarrow> w))"
proof -
  from assms(2) have "inv c" by (simp add: inv_constructor inv_exec)
  then have ok: "timers_ok c" by (simp add: inv_def)
  let ?n = "next_timer c"
  from assms(1,3) have c': "c' = enqueue (next_promise c) now d opts (c\<lparr>next_promise := Suc (next_promise c)\<rparr>)"
    by (simp add: call_eq)
  have old: "\<forall>t \<in> set (timers c). fst t < ?n"
    using ok by (simp add: timers_ok_def)
  have first: "queue c = [] \<longrightarrow>
      (\<exists>h. maxAgeTimeout c' = Some h \<and> h \<notin> fst ` set (timers c) \<and>
           filter (\<lambda>t. fst t = h) (timers c') = [(h, maxWait opts)])"
  proof
    assume e: "queue c = []"
    have "filter (\<lambda>t. fst t = Suc ?n) (cleared (pushTimeout c) (timers c)) = []"
      using old by (auto simp: filter_empty_conv set_cleared)
    moreover have "Suc ?n \<notin> fst ` set (timers c)" using old by auto
    ultimately show "\<exists>h. maxAgeTimeout c' = Some h \<and> h \<notin> fst ` set (timers c) \<and>
           filter (\<lambda>t. fst t = h) (timers c') = [(h, maxWait opts)]"
      using e by (simp add: c' enqueue_eq)
  qed
  have later: "queue c \<noteq> [] \<longrightarrow>
      (\<exists>h. maxAgeTimeout c = Some h \<and> maxAgeTimeout c' = Some h \<and>
           h \<in> fst ` set (timers c) \<and>
           filter (\<lambda>t. fst t = h) (timers c') = filter (\<lambda>t. fst t = h) (timers c)) \<and>
      (\<forall>t \<in> set (timers c'). t \<in> set (timers c) \<or> pushTimeout c' = Some (fst t))"
  proof
    assume ne: "queue c \<noteq> []"
    from ok ne have "\<exists>h h'. pushTimeout c = Some h \<and> maxAgeTimeout c = Some h' \<and>
        h \<in> fst ` set (timers c) \<and> h' \<in> fst ` set (timers c)"
      by (simp add: timers_ok_def)
    then obtain h h' where h0: "pushTimeout c = Some h" "maxAgeTimeout c = Some h'"
      "h' \<in> fst ` set (timers c)"
      by blast
    from ok h0 have "h' \<noteq> h" "h' < ?n"
      by (simp_all add: timers_ok_def)
    note h = h0 this
    have "filter (\<lambda>t. fst t = h') (cleared (Some h) (timers c)) = filter (\<lambda>t. fst t = h') (timers c)"
      using h(4) by (auto simp: cleared_def intro: filter_cong)
    with h ne have "maxAgeTimeout c = Some h' \<and> maxAgeTimeout c' = Some h' \<and>
           h' \<in> fst ` set (timers c) \<and>
           filter (\<lambda>t. fst t = h') (timers c') = filter (\<lambda>t. fst t = h') (timers c)"
      by (simp add: c' enqueue_eq)
    moreover have "\<forall>t \<in> set (timers c'). t \<in> set (timers c) \<or> pushTimeout c' = Some (fst t)"
      using ne by (auto simp: c' enqueue_eq set_cleared)
    ultimately show "(\<exists>h. maxAgeTimeout c = Some h \<and> maxAgeTimeout c' = Some h \<and>
           h \<in> fst ` set (timers c) \<and>
           filter (\<lambda>t. fst t = h) (timers c') = filter (\<lambda>t. fst t = h) (timers c)) \<and>
      (\<forall>t \<in> set (timers c'). t \<in> set (timers c) \<or> pushTimeout c' = Some (fst t))"
      by blast
  qed
  have "maxWait opts =
           (case opts of
              None \<Rightarrow> 1000
            | Some v \<Rightarrow> (case debounce_max_wait v of None \<Rightarrow> 1000 | Some w \<Rightarrow> w))"
    by (simp add: maxWait_def MAX_QUEUE_TIME_def split: option.splits)
  with first later show ?thesis by blast
qed

text \<open>
  An instance: a first push with \<open>debounce_max_wait = 0\<close> starts the max-wait timer
  with delay 0.
\<close>

theorem C5_witness:
  "\<not> is_immediate (Some \<lparr>debounce = None, debounce_max_wait = Some 0, immediately = None\<rparr>) \<and>
   queue (exec [] (constructor None)) = [] \<and>
   (\<exists>h. maxAgeTimeout
          (snd (call 7 (Push (JStr ''a'')
             (Some \<lparr>debounce = None, debounce_max_wait = Some 0, immediately = None\<rparr>))
             (exec [] (constructor None)))) = Some h \<and>
        filter (\<lambda>t. fst t = h)
          (timers (snd (call 7 (Push (JStr ''a'')
             (Some \<lparr>debounce = None, debounce_max_wait = Some 0, immediately = None\<rparr>))
             (exec [] (constructor None))))) = [(h, 0)])"
proof -
  let ?opts = "Some \<lparr>debounce = None, debounce_max_wait = Some 0, immediately = None\<rparr>"
  let ?c = "exec [] (constructor None)"
  have h1: "\<not> is_immediate ?opts" by (simp add: is_immediate_def)
  have h3: "call 7 (Push (JStr ''a'') ?opts) ?c =
              (fst (call 7 (Push (JStr ''a'') ?opts) ?c), snd (call 7 (Push (JStr ''a'') ?opts) ?c))"
    by simp
  have q: "queue ?c = []" by (simp add: constructor_def)
  have m: "maxWait ?opts = 0" by (simp add: maxWait_def)
  from C5_max_wait_timer [OF h1 refl h3] q m h1 show ?thesis
    by (simp del: exec.simps) blast
qed

subsection \<open>Requests that are sent and requests that are not\<close>

lemma http_Inl_iff: "http c = Inl e \<longleftrightarrow> axiosInstance c = None \<and> validateConfig c = Inl e"
  by (cases "axiosInstance c"; cases "validateConfig c") (auto simp: http_def)

lemma validateConfig_cong:
  assumes "apiKey c' = apiKey c" "teamId c' = teamId c" "apiSecret c' = apiSecret c"
  shows "validateConfig c' = validateConfig c"
  by (simp add: validateConfig_def assms)

lemma http_Inl_cong:
  assumes "apiKey c' = apiKey c" "teamId c' = teamId c" "apiSecret c' = apiSecret c"
    "axiosInstance c' = axiosInstance c"
  shows "http c' = Inl e \<longleftrightarrow> http c = Inl e"
  by (simp add: http_Inl_iff validateConfig_cong [OF assms(1-3)] assms(4))

lemma request_op_rejected:
  assumes "http c = Inl e"
  shows "request_op r w c = c\<lparr>settlements := settlements c @ [Rejected (awaited_promise w) e]\<rparr>"
  using assms request_op_cases [of c r w] by auto

lemma request_op_sent:
  assumes "http c = Inr c1"
  shows "\<exists>i. request_op r w c =
           c\<lparr>axiosInstance := Some i, requests := requests c @ [r],
             inflight := inflight c @ [(length (requests c), w)]\<rparr>"
  using assms request_op_cases [of c r w] by auto

lemma http_after_sent:
  "\<exists>c2. http (c\<lparr>axiosInstance := Some i, requests := rs, inflight := fl\<rparr>) = Inr c2"
  by (simp add: http_def)

text \<open>
  Claim C6. For a \<open>push\<close> with \<open>immediately\<close> on a client in any reachable state:
  the call returns a promise; the queue, \<open>pushTimeout\<close>, \<open>maxAgeTimeout\<close> and the
  live timers are as before; either \<open>http()\<close> throws, nothing is sent and the
  promise is rejected with that error, or exactly one request
  \<^verbatim>\<open>POST /api/pulse\<close> with the payload is sent and awaited by the promise. When
  that request completes, with whatever outcome, the promise is resolved or
  rejected with the outcome, and the queue, both timer fields, the live timers
  and the other requests in flight are still as before the call.
\<close>

theorem C6_immediate_push:
  assumes "is_immediate opts"
    and "c = exec es (constructor config)"
    and "call now (Push d opts) c = (r, c')"
  shows "r = Inr (next_promise c) \<and>
         queue c' = queue c \<and> pushTimeout c' = pushTimeout c \<and>
         maxAgeTimeout c' = maxAgeTimeout c \<and> timers c' = timers c \<and>
         ((\<exists>e. http c = Inl e \<and> requests c' = requests c \<and> inflight c' = inflight c \<and>
               settlements c' = settlements c @ [Rejected (next_promise c) e]) \<or>
          (requests c' = requests c @ [POST ''/api/pulse'' d] \<and>
           inflight c' = inflight c @ [(length (requests c), Caller (next_promise c))] \<and>
           settlements c' = settlements c \<and>
           (\<forall>outcome.
              queue (step (Complete (length (requests c)) outcome) c') = queue c \<and>
              pushTimeout (step (Complete (length (requests c)) outcome) c') = pushTimeout c \<and>
              maxAgeTimeout (step (Complete (length (requests c)) outcome) c') = maxAgeTimeout c \<and>
              timers (step (Complete (length (requests c)) outcome) c') = timers c \<and>
              inflight (step (Complete (length (requests c)) outcome) c') = inflight c \<and>
              settlements (step (Complete (length (requests c)) outcome) c') =
                settlements c @
                  [case outcome of
                     Inr response \<Rightarrow> Resolved (next_promise c) response
                   | Inl e \<Rightarrow> Rejected (next_promise c) e])))"
proof -
  let ?p = "next_promise c"
  let ?c0 = "c\<lparr>next_promise := Suc ?p\<rparr>"
  let ?n = "length (requests c)"
  from assms(2) have "inv c" by (simp add: inv_constructor inv_exec)
  then have fl: "\<forall>e \<in> set (inflight c). fst e < ?n" by (simp add: inv_def inflight_ok_def)
  from assms(1,3) have r: "r = Inr ?p"
    and c': "c' = request_op (POST ''/api/pulse'' d) (Caller ?p) ?c0"
    by (simp_all add: call_eq)
  have frame: "queue c' = queue c" "pushTimeout c' = pushTimeout c"
    "maxAgeTimeout c' = maxAgeTimeout c" "timers c' = timers c"
    by (simp_all add: c')
  show ?thesis
  proof (cases "http ?c0")
    case (Inl e)
    then have "http c = Inl e" by (simp add: http_Inl_cong [of ?c0 c])
    moreover from request_op_rejected [OF Inl] have
      "c' = ?c0\<lparr>settlements := settlements ?c0 @ [Rejected ?p e]\<rparr>"
      by (simp add: c')
    then have "requests c' = requests c" "inflight c' = inflight c"
      "settlements c' = settlements c @ [Rejected ?p e]"
      by simp_all
    ultimately show ?thesis using r frame by blast
  next
    case (Inr c1)
    from request_op_sent [OF Inr] obtain i where
      "c' = ?c0\<lparr>axiosInstance := Some i,
               requests := requests ?c0 @ [POST ''/api/pulse'' d],
               inflight := inflight ?c0 @ [(length (requests ?c0), Caller ?p)]\<rparr>"
      unfolding c' by blast
    then have sent: "requests c' = requests c @ [POST ''/api/pulse'' d]"
      "inflight c' = inflight c @ [(?n, Caller ?p)]" "settlements c' = settlements c"
      by simp_all
    have notin: "?n \<notin> fst ` set (inflight c)" using fl by auto
    then have "map_of (inflight c) ?n = None" by (simp add: map_of_eq_None_iff)
    then have look: "map_of (inflight c') ?n = Some (Caller ?p)"
      by (simp add: sent map_add_def)
    have rest: "filter (\<lambda>e. fst e \<noteq> ?n) (inflight c') = inflight c"
      using notin by (force simp: sent filter_id_conv)
    have "\<forall>outcome.
              queue (step (Complete ?n outcome) c') = queue c \<and>
              pushTimeout (step (Complete ?n outcome) c') = pushTimeout c \<and>
              maxAgeTimeout (step (Complete ?n outcome) c') = maxAgeTimeout c \<and>
              timers (step (Complete ?n outcome) c') = timers c \<and>
              inflight (step (Complete ?n outcome) c') = inflight c \<and>
              settlements (step (Complete ?n outcome) c') =
                settlements c @
                  [case outcome of
                     Inr response \<Rightarrow> Resolved ?p response
                   | Inl e \<Rightarrow> Rejected ?p e]"
      using look rest frame sent(3) by (simp add: settle_eq settlement_of_def)
    with r frame sent show ?thesis by blast
  qed
qed

text \<open>
  An instance: an immediate push made while another item is queued; its request
  fails. The queued item and the two timers are untouched.
\<close>

theorem C6_witness:
  "is_immediate (Some \<lparr>debounce = None, debounce_max_wait = None, immediately = Some True\<rparr>) \<and>
   queue (exec [Call 0 (Push (JStr ''a'') None),
                Call 1 (Push (JStr ''b'')
                  (Some \<lparr>debounce = None, debounce_max_wait = None, immediately = Some True\<rparr>)),
                Complete 0 (Inl (RequestError JNull))] (constructor (Some example_config)))
     = queue (exec [Call 0 (Push (JStr ''a'') None)] (constructor (Some example_config))) \<and>
   timers (exec [Call 0 (Push (JStr ''a'') None),
                Call 1 (Push (JStr ''b'')
                  (Some \<lparr>debounce = None, debounce_max_wait = None, immediately = Some True\<rparr>)),
                Complete 0 (Inl (RequestError JNull))] (constructor (Some example_config)))
     = timers (exec [Call 0 (Push (JStr ''a'') None)] (constructor (Some example_config))) \<and>
   settlements (exec [Call 0 (Push (JStr ''a'') None),
                Call 1 (Push (JStr ''b'')
                  (Some \<lparr>debounce = None, debounce_max_wait = None, immediately = Some True\<rparr>)),
                Complete 0 (Inl (RequestError JNull))] (constructor (Some example_config)))
     = [Rejected 1 (RequestError JNull)]"
proof -
  let ?opts = "Some \<lparr>debounce = None, debounce_max_wait = None, immediately = Some True\<rparr>"
  let ?c = "exec [Call 0 (Push (JStr ''a'') None)] (constructor (Some example_config))"
  let ?c' = "snd (call 1 (Push (JStr ''b'') ?opts) ?c)"
  have h1: "is_immediate ?opts" by (simp add: is_immediate_def)
  have h3: "call 1 (Push (JStr ''b'') ?opts) ?c = (fst (call 1 (Push (JStr ''b'') ?opts) ?c), ?c')"
    by simp
  have e: "exec [Call 0 (Push (JStr ''a'') None), Call 1 (Push (JStr ''b'') ?opts),
                 Complete 0 (Inl (RequestError JNull))] (constructor (Some example_config))
             = step (Complete 0 (Inl (RequestError JNull))) ?c'"
    by (simp del: step.simps(7))
  have n: "length (requests ?c) = 0" "next_promise ?c = 1" "settlements ?c = []"
    "http ?c \<noteq> Inl (Error ''API Key is not set'')" "http ?c \<noteq> Inl (Error ''Team ID is not set'')"
    "http ?c \<noteq> Inl (Error ''API Secret is not set'')"
    by code_simp+
  have "\<And>e. http ?c \<noteq> Inl e"
    using n(4-6) by (auto simp: http_Inl_iff validateConfig_def split: if_splits)
  with C6_immediate_push [OF h1 refl h3] n(1-3) h1 show ?thesis
    unfolding e by (simp del: step.simps exec.simps)
qed

lemma dispatch_rejected:
  assumes "http c = Inl e"
  shows "dispatch items snapshot c =
           c\<lparr>settlements := settlements c @ map (\<lambda>i. Rejected (promise i) e) items\<rparr>"
  using assms
proof (induction items arbitrary: c)
  case Nil
  then show ?case by simp
next
  case (Cons item items)
  let ?c = "c\<lparr>settlements := settlements c @ [Rejected (promise item) e]\<rparr>"
  from Cons.prems have "http ?c = Inl e" by (simp add: http_Inl_cong [of ?c c])
  from Cons.IH [OF this] Cons.prems show ?case
    by (simp add: pulse_create_def request_op_rejected)
qed

lemma dispatch_sent:
  assumes "http c = Inr c1"
  shows "requests (dispatch items snapshot c) =
           requests c @ map (\<lambda>i. POST ''/api/pulse'' (data i)) items \<and>
         inflight (dispatch items snapshot c) =
           inflight c @
             map (\<lambda>k. (length (requests c) + k, Item (items ! k) snapshot)) [0..<length items] \<and>
         settlements (dispatch items snapshot c) = settlements c"
  using assms
proof (induction items arbitrary: c c1)
  case Nil
  then show ?case by simp
next
  case (Cons item items)
  from request_op_sent [OF Cons.prems] obtain i where
    c': "request_op (POST ''/api/pulse'' (data item)) (Item item snapshot) c =
           c\<lparr>axiosInstance := Some i,
             requests := requests c @ [POST ''/api/pulse'' (data item)],
             inflight := inflight c @ [(length (requests c), Item item snapshot)]\<rparr>"
    by blast
  let ?c = "c\<lparr>axiosInstance := Some i,
             requests := requests c @ [POST ''/api/pulse'' (data item)],
             inflight := inflight c @ [(length (requests c), Item item snapshot)]\<rparr>"
  from http_after_sent obtain c2 where "http ?c = Inr c2" by blast
  from Cons.IH [OF this] show ?case
    by (simp add: pulse_create_def c' map_upt_Suc del: upt_Suc)
qed

lemma map_of_batch_if:
  "map_of (map (\<lambda>j. (b + j, g j)) [0..<n]) (b + k) = (if k < n then Some (g k) else None)"
  by (induction n) (auto simp: map_add_def less_Suc_eq)

lemma map_of_batch:
  "k < n \<Longrightarrow> map_of (map (\<lambda>j. (b + j, g j)) [0..<n]) (b + k) = Some (g k)"
  by (simp add: map_of_batch_if)

lemma map_of_filter_fst:
  "map_of (filter (\<lambda>t. fst t \<noteq> h) ts) k = (if k = h then None else map_of ts k)"
  by (induction ts) auto

lemma complete_in_order_settlements:
  assumes "\<forall>k \<in> set seq. map_of (inflight c) (base + k) = Some (w k)"
    and "distinct seq"
  shows "settlements (complete_in_order base outcomes seq c) =
           settlements c @
             map (\<lambda>k. settlement_of (awaited_promise (w k)) (outcomes k)) seq"
  using assms
proof (induction seq arbitrary: c)
  case Nil
  then show ?case by simp
next
  case (Cons k ks)
  let ?c = "step (Complete (base + k) (outcomes k)) c"
  from Cons.prems have k: "map_of (inflight c) (base + k) = Some (w k)" by simp
  then have c': "?c = c\<lparr>inflight := filter (\<lambda>e. fst e \<noteq> base + k) (inflight c),
                       settlements := settlements c @
                         [settlement_of (awaited_promise (w k)) (outcomes k)]\<rparr>"
    by (simp add: settle_eq)
  have "\<forall>j \<in> set ks. map_of (inflight ?c) (base + j) = Some (w j)"
    using Cons.prems unfolding c' by (auto simp: map_of_filter_fst)
  moreover from Cons.prems have "distinct ks" by simp
  ultimately have "settlements (complete_in_order base outcomes ks ?c) =
      settlements ?c @ map (\<lambda>k. settlement_of (awaited_promise (w k)) (outcomes k)) ks"
    by (rule Cons.IH)
  then show ?case
    by (simp add: c' del: step.simps)
qed

text \<open>
  Claim C7. Flush a non-empty queue of a client in any reachable state. When
  \<open>http()\<close> throws, no request is sent and each item is rejected with that error
  by its own handler. Otherwise one request \<^verbatim>\<open>POST /api/pulse\<close> per item is sent,
  in queue order, and nothing is settled yet; when some of these requests
  complete, in any order, each completion calls \<open>resolve\<close> (on success) or \<open>reject\<close>
  (on failure) of the item the request was sent for, with the outcome of that
  request, and makes no other call.
\<close>

theorem C7_per_item_outcome:
  assumes "c = exec es (constructor config)"
    and "queue c \<noteq> []"
  shows "(\<forall>e. http c = Inl e \<longrightarrow>
            requests (processQueue c) = requests c \<and>
            settlements (processQueue c) =
              settlements c @ map (\<lambda>i. Rejected (promise i) e) (queue c)) \<and>
         (\<forall>c1 seq. http c = Inr c1 \<and> distinct seq \<and> set seq \<subseteq> {..<length (queue c)} \<longrightarrow>
            requests (processQueue c) =
              requests c @ map (\<lambda>i. POST ''/api/pulse'' (data i)) (queue c) \<and>
            settlements (processQueue c) = settlements c \<and>
            settlements (complete_in_order (length (requests c)) outcomes seq (processQueue c)) =
              settlements c @
                map (\<lambda>k. case outcomes k of
                            Inr response \<Rightarrow> Resolved (promise (queue c ! k)) response
                          | Inl e \<Rightarrow> Rejected (promise (queue c ! k)) e) seq)"
proof -
  let ?c = "c\<lparr>queue := [], pushTimeout := None, maxAgeTimeout := None,
               timers := cleared (maxAgeTimeout c) (cleared (pushTimeout c) (timers c))\<rparr>"
  let ?n = "length (requests c)"
  from assms(1) have "inv c" by (simp add: inv_constructor inv_exec)
  then have fl: "\<forall>e \<in> set (inflight c). fst e < ?n" by (simp add: inv_def inflight_ok_def)
  from assms(2) have pq: "processQueue c = dispatch (queue c) (queue c) ?c"
    by (simp add: processQueue_eq)
  have failing: "\<forall>e. http c = Inl e \<longrightarrow>
            requests (processQueue c) = requests c \<and>
            settlements (processQueue c) =
              settlements c @ map (\<lambda>i. Rejected (promise i) e) (queue c)"
  proof (intro allI impI)
    fix e assume "http c = Inl e"
    then have "http ?c = Inl e" by (simp add: http_Inl_cong [of ?c c])
    from dispatch_rejected [OF this] show
      "requests (processQueue c) = requests c \<and>
       settlements (processQueue c) =
         settlements c @ map (\<lambda>i. Rejected (promise i) e) (queue c)"
      by (simp add: pq)
  qed
  have sending: "\<forall>c1 seq. http c = Inr c1 \<and> distinct seq \<and> set seq \<subseteq> {..<length (queue c)} \<longrightarrow>
            requests (processQueue c) =
              requests c @ map (\<lambda>i. POST ''/api/pulse'' (data i)) (queue c) \<and>
            settlements (processQueue c) = settlements c \<and>
            settlements (complete_in_order ?n outcomes seq (processQueue c)) =
              settlements c @
                map (\<lambda>k. case outcomes k of
                            Inr response \<Rightarrow> Resolved (promise (queue c ! k)) response
                          | Inl e \<Rightarrow> Rejected (promise (queue c ! k)) e) seq"
  proof (intro allI impI, elim conjE)
    fix c1 seq
    assume ok: "http c = Inr c1" and d: "distinct seq"
      and sub: "set seq \<subseteq> {..<length (queue c)}"
    have "\<And>e. http ?c \<noteq> Inl e"
      using ok by (simp add: http_Inl_cong [of ?c c])
    then obtain c2 where "http ?c = Inr c2" by (cases "http ?c") auto
    from dispatch_sent [OF this, of "queue c" "queue c"]
    have rq: "requests (processQueue c) =
                requests c @ map (\<lambda>i. POST ''/api/pulse'' (data i)) (queue c)"
      and fl': "inflight (processQueue c) =
                inflight c @
                  map (\<lambda>k. (?n + k, Item (queue c ! k) (queue c))) [0..<length (queue c)]"
      and st: "settlements (processQueue c) = settlements c"
      by (simp_all add: pq)
    have "\<forall>k \<in> set seq.
            map_of (inflight (processQueue c)) (?n + k) = Some (Item (queue c ! k) (queue c))"
    proof
      fix k assume "k \<in> set seq"
      with sub have k: "k < length (queue c)" by auto
      have "?n + k \<notin> fst ` set (inflight c)" using fl by auto
      then have "map_of (inflight c) (?n + k) = None" by (simp add: map_of_eq_None_iff)
      with map_of_batch [OF k, of ?n "\<lambda>k. Item (queue c ! k) (queue c)"]
      show "map_of (inflight (processQueue c)) (?n + k) = Some (Item (queue c ! k) (queue c))"
        by (simp add: fl' map_add_def)
    qed
    from complete_in_order_settlements [OF this d, of outcomes]
    have "settlements (complete_in_order ?n outcomes seq (processQueue c)) =
            settlements c @
              map (\<lambda>k. case outcomes k of
                          Inr response \<Rightarrow> Resolved (promise (queue c ! k)) response
                        | Inl e \<Rightarrow> Rejected (promise (queue c ! k)) e) seq"
      by (simp add: st settlement_of_def)
    with rq st show
      "requests (processQueue c) =
         requests c @ map (\<lambda>i. POST ''/api/pulse'' (data i)) (queue c) \<and>
       settlements (processQueue c) = settlements c \<and>
       settlements (complete_in_order ?n outcomes seq (processQueue c)) =
         settlements c @
           map (\<lambda>k. case outcomes k of
                       Inr response \<Rightarrow> Resolved (promise (queue c ! k)) response
                     | Inl e \<Rightarrow> Rejected (promise (queue c ! k)) e) seq"
      by blast
  qed
  from failing sending show ?thesis by blast
qed

text \<open>
  An instance: three items are flushed, the requests complete in the order third,
  first, second, and the second fails. The second item is rejected, the other
  two are resolved.
\<close>

theorem C7_witness:
  "queue (exec [Call 0 (Push (JStr ''a'') None), Call 4 (Push (JStr ''b'') None),
                Call 9 (Push (JStr ''c'') None)] (constructor (Some example_config))) \<noteq> [] \<and>
   settlements
     (complete_in_order 0
        (\<lambda>k. if k = 1 then Inl (RequestError (JStr ''boom'')) else Inr (JStr ''ok''))
        [2, 0, 1]
        (processQueue
           (exec [Call 0 (Push (JStr ''a'') None), Call 4 (Push (JStr ''b'') None),
                  Call 9 (Push (JStr ''c'') None)] (constructor (Some example_config)))))
     = [Resolved 2 (JStr ''ok''), Resolved 0 (JStr ''ok''),
        Rejected 1 (RequestError (JStr ''boom''))]"
proof -
  let ?c = "exec [Call 0 (Push (JStr ''a'') None), Call 4 (Push (JStr ''b'') None),
                  Call 9 (Push (JStr ''c'') None)] (constructor (Some example_config))"
  let ?outs = "\<lambda>k::nat. if k = 1 then Inl (RequestError (JStr ''boom'')) else Inr (JStr ''ok'')"
  have h2: "queue ?c \<noteq> []" by code_simp
  have n: "length (requests ?c) = 0" "settlements ?c = []" "length (queue ?c) = 3"
    "promise (queue ?c ! 0) = 0" "promise (queue ?c ! Suc 0) = Suc 0" "promise (queue ?c ! 2) = 2"
    by code_simp+
  have v: "validateConfig ?c = Inr ()" by code_simp
  then have "\<And>e. http ?c \<noteq> Inl e" by (simp add: http_Inl_iff)
  then obtain c1 where ok: "http ?c = Inr c1" by (cases "http ?c") auto
  have s: "distinct [2, 0, 1::nat]" "set [2, 0, 1::nat] \<subseteq> {..<length (queue ?c)}"
    unfolding n(3) by simp_all
  from C7_per_item_outcome [OF refl h2, of ?outs, THEN conjunct2, rule_format, of c1 "[2, 0, 1]"]
    ok s
  have "settlements (complete_in_order (length (requests ?c)) ?outs [2, 0, 1] (processQueue ?c)) =
          settlements ?c @
            map (\<lambda>k. case ?outs k of
                        Inr response \<Rightarrow> Resolved (promise (queue ?c ! k)) response
                      | Inl e \<Rightarrow> Rejected (promise (queue ?c ! k)) e) [2, 0, 1]"
    by blast
  with h2 show ?thesis
    by (simp add: n del: exec.simps complete_in_order.simps)
qed

lemma settle_count_calls_on: "settle_count c p = length (calls_on p c)"
  by (simp add: settle_count_def calls_on_def)

lemma carries_request_op:
  assumes "carries p d c"
    and "awaited_promise w = p \<Longrightarrow>
           (\<exists>item snapshot. w = Item item snapshot \<and> data item = d) \<and> r = POST ''/api/pulse'' d"
  shows "carries p d (request_op r w c)"
proof -
  from request_op_cases [of c r w] show ?thesis
  proof (elim disjE exE conjE)
    fix e
    assume "request_op r w c =
              c\<lparr>settlements := settlements c @ [Rejected (awaited_promise w) e]\<rparr>"
    with assms(1) show ?thesis by (simp add: carries_def)
  next
    fix i
    assume eq: "request_op r w c =
              c\<lparr>axiosInstance := Some i, requests := requests c @ [r],
                inflight := inflight c @ [(length (requests c), w)]\<rparr>"
    show ?thesis
      unfolding eq carries_def
    proof (intro conjI ballI impI)
      fix item
      assume "item \<in> set (queue (c\<lparr>axiosInstance := Some i, requests := requests c @ [r],
                inflight := inflight c @ [(length (requests c), w)]\<rparr>))"
        and "promise item = p"
      with assms(1) show "data item = d" by (simp add: carries_def)
    next
      fix e
      assume e: "e \<in> set (inflight (c\<lparr>axiosInstance := Some i, requests := requests c @ [r],
                inflight := inflight c @ [(length (requests c), w)]\<rparr>))"
        and p: "awaited_promise (snd e) = p"
      then consider (old) "e \<in> set (inflight c)" | (new) "e = (length (requests c), w)"
        by auto
      then have "(\<exists>item snapshot. snd e = Item item snapshot \<and> data item = d) \<and>
          fst e < length (requests c @ [r]) \<and> (requests c @ [r]) ! fst e = POST ''/api/pulse'' d"
      proof cases
        case old
        with assms(1) p have "(\<exists>item snapshot. snd e = Item item snapshot \<and> data item = d) \<and>
          fst e < length (requests c) \<and> requests c ! fst e = POST ''/api/pulse'' d"
          by (simp add: carries_def)
        then show ?thesis by (simp add: nth_append)
      next
        case new
        with p assms(2) show ?thesis by simp
      qed
      then show "\<exists>item snapshot. snd e = Item item snapshot \<and> data item = d"
        and "fst e < length (requests (c\<lparr>axiosInstance := Some i, requests := requests c @ [r],
                inflight := inflight c @ [(length (requests c), w)]\<rparr>))"
        and "requests (c\<lparr>axiosInstance := Some i, requests := requests c @ [r],
                inflight := inflight c @ [(length (requests c), w)]\<rparr>) ! fst e
               = POST ''/api/pulse'' d"
        by simp_all
    qed
  qed
qed

lemma carries_dispatch:
  assumes "carries p d c" and "\<forall>item \<in> set items. promise item = p \<longrightarrow> data item = d"
  shows "carries p d (dispatch items snapshot c)"
  using assms
proof (induction items arbitrary: c)
  case Nil
  then show ?case by simp
next
  case (Cons item items)
  have "carries p d (request_op (POST ''/api/pulse'' (data item)) (Item item snapshot) c)"
    using Cons.prems by (intro carries_request_op) auto
  with Cons.IH Cons.prems(2) show ?case by (simp add: pulse_create_def)
qed

lemma carries_frame:
  assumes "queue c' = queue c" "inflight c' = inflight c" "requests c' = requests c"
  shows "carries p d c' = carries p d c"
  by (simp add: carries_def assms)

lemma carries_processQueue:
  assumes "carries p d c"
  shows "carries p d (processQueue c)"
proof (cases "queue c = []")
  case True
  with assms show ?thesis by (simp add: processQueue_eq)
next
  case False
  let ?c = "c\<lparr>queue := [], pushTimeout := None, maxAgeTimeout := None,
               timers := cleared (maxAgeTimeout c) (cleared (pushTimeout c) (timers c))\<rparr>"
  from assms have "carries p d ?c" by (simp add: carries_def)
  moreover from assms have "\<forall>item \<in> set (queue c). promise item = p \<longrightarrow> data item = d"
    by (simp add: carries_def)
  ultimately have "carries p d (dispatch (queue c) (queue c) ?c)" by (rule carries_dispatch)
  with False show ?thesis by (simp add: processQueue_eq)
qed

lemma carries_step:
  assumes "carries p d c" and "p < next_promise c"
  shows "carries p d (step e c)"
proof (cases e)
  case (Call now opn)
  let ?c0 = "c\<lparr>next_promise := Suc (next_promise c)\<rparr>"
  have c0: "carries p d ?c0" using assms(1) by (simp add: carries_def)
  show ?thesis
  proof (cases "\<exists>d' opts. opn = Push d' opts \<and> \<not> is_immediate opts")
    case True
    then obtain d' opts where "opn = Push d' opts" "\<not> is_immediate opts" by blast
    with assms Call show ?thesis
      by (auto simp: call_eq enqueue_eq carries_def)
  next
    case False
    then obtain r where
      "snd (call now opn c) = request_op r (Caller (next_promise c)) ?c0"
      by (cases opn) (auto simp: call_eq op_defs)
    moreover have "carries p d (request_op r (Caller (next_promise c)) ?c0)"
      using c0 assms(2) by (intro carries_request_op) auto
    ultimately show ?thesis using Call by simp
  qed
next
  case (SetApiKey k)
  with assms(1) show ?thesis by (simp add: setApiKey_def carries_def)
next
  case (SetTeamId i)
  with assms(1) show ?thesis by (simp add: setTeamId_def carries_def)
next
  case (SetBaseURL u)
  with assms(1) show ?thesis by (simp add: setBaseURL_def carries_def)
next
  case (Fire h)
  have "carries p d (c\<lparr>timers := filter (\<lambda>t. fst t \<noteq> h) (timers c)\<rparr>)"
    using assms(1) by (simp add: carries_def)
  then have "carries p d (processQueue (c\<lparr>timers := filter (\<lambda>t. fst t \<noteq> h) (timers c)\<rparr>))"
    by (rule carries_processQueue)
  with assms(1) Fire show ?thesis by (simp split: option.splits)
next
  case StaleFire
  with assms(1) show ?thesis by (simp add: carries_processQueue)
next
  case (Complete rid outcome)
  with assms(1) show ?thesis
    by (auto simp: settle_eq carries_def split: option.splits)
qed

lemma carries_exec:
  assumes "carries p d c" and "p < next_promise c"
  shows "carries p d (exec es c)"
  using assms
proof (induction es arbitrary: c)
  case Nil
  then show ?case by simp
next
  case (Cons e es)
  from Cons.prems have "carries p d (step e c)" by (rule carries_step)
  moreover from next_promise_step [of c e] Cons.prems(2) have "p < next_promise (step e c)"
    by simp
  ultimately show ?case using Cons.IH by (simp del: step.simps)
qed

lemma fresh_promise:
  assumes "inv c"
  shows "next_promise c \<notin> set (queued c)" "next_promise c \<notin> set (waiting c)"
proof -
  from inv_counts [OF assms, of "next_promise c"]
  have "count (mset (queued c)) (next_promise c) = 0" "count (mset (waiting c)) (next_promise c) = 0"
    by simp_all
  then show "next_promise c \<notin> set (queued c)" "next_promise c \<notin> set (waiting c)"
    by (simp_all add: count_mset_0_iff)
qed

lemma carries_after_push:
  assumes "inv c"
  shows "carries (next_promise c) d
           (enqueue (next_promise c) now d opts (c\<lparr>next_promise := Suc (next_promise c)\<rparr>))"
  using fresh_promise [OF assms]
  by (auto simp: enqueue_eq carries_def queued_def waiting_def image_iff)

lemma filter_rejected_map:
  assumes "count (mset (map promise q)) p \<le> 1"
  shows "filter (\<lambda>s. settled_promise s = p) (map (\<lambda>i. Rejected (promise i) e) q) =
           (if p \<in> set (map promise q) then [Rejected p e] else [])"
  using assms
proof (induction q)
  case Nil
  then show ?case by simp
next
  case (Cons i q)
  show ?case
  proof (cases "promise i = p")
    case True
    with Cons.prems have "count (mset (map promise q)) p = 0" by simp
    then have "p \<notin> set (map promise q)"
      using count_mset_0_iff [of "map promise q" p] by blast
    then have "filter (\<lambda>s. settled_promise s = p) (map (\<lambda>i. Rejected (promise i) e) q) = []"
      by (auto simp: filter_empty_conv)
    with True show ?thesis by simp
  next
    case False
    with Cons show ?thesis by simp
  qed
qed

lemma http_case_cong:
  assumes "apiKey c' = apiKey c" "teamId c' = teamId c" "apiSecret c' = apiSecret c"
    "axiosInstance c' = axiosInstance c"
  shows "(case http c' of Inl err \<Rightarrow> f err | Inr c1 \<Rightarrow> g) =
         (case http c of Inl err \<Rightarrow> f err | Inr c1 \<Rightarrow> g)"
proof (cases "http c")
  case (Inl e)
  then have "http c' = Inl e" by (simp add: http_Inl_cong [OF assms])
  with Inl show ?thesis by simp
next
  case (Inr c1)
  then have "\<And>e. http c' \<noteq> Inl e" by (simp add: http_Inl_cong [OF assms])
  then obtain c2 where "http c' = Inr c2" by (cases "http c'") auto
  with Inr show ?thesis by simp
qed

lemma calls_on_processQueue:
  assumes "count (mset (queued c)) p \<le> 1"
  shows "calls_on p (processQueue c) =
           calls_on p c @
             (if p \<in> set (queued c)
              then (case http c of Inl err \<Rightarrow> [Rejected p err] | Inr c1 \<Rightarrow> [])
              else [])"
proof (cases "queue c = []")
  case True
  then show ?thesis by (simp add: processQueue_eq queued_def)
next
  case False
  let ?c = "c\<lparr>queue := [], pushTimeout := None, maxAgeTimeout := None,
               timers := cleared (maxAgeTimeout c) (cleared (pushTimeout c) (timers c))\<rparr>"
  from False have pq: "processQueue c = dispatch (queue c) (queue c) ?c"
    by (simp add: processQueue_eq)
  show ?thesis
  proof (cases "http c")
    case (Inl err)
    then have "http ?c = Inl err" by (simp add: http_Inl_cong [of ?c c])
    from dispatch_rejected [OF this, of "queue c" "queue c"]
    have "settlements (processQueue c) =
            settlements c @ map (\<lambda>i. Rejected (promise i) err) (queue c)"
      by (simp add: pq)
    with filter_rejected_map [of "queue c" p err] assms Inl show ?thesis
      by (simp add: calls_on_def queued_def)
  next
    case (Inr c1)
    then have "\<And>e. http ?c \<noteq> Inl e" by (simp add: http_Inl_cong [of ?c c])
    then obtain c2 where "http ?c = Inr c2" by (cases "http ?c") auto
    from dispatch_sent [OF this, of "queue c" "queue c"]
    have "settlements (processQueue c) = settlements c" by (simp add: pq)
    with Inr show ?thesis by (simp add: calls_on_def)
  qed
qed

lemma calls_on_request_op:
  "awaited_promise w \<noteq> p \<Longrightarrow> calls_on p (request_op r w c) = calls_on p c"
  using request_op_cases [of c r w] by (auto simp: calls_on_def)

lemma calls_on_call:
  assumes "p < next_promise c"
  shows "calls_on p (snd (call now opn c)) = calls_on p c"
proof (cases "\<exists>d opts. opn = Push d opts \<and> \<not> is_immediate opts")
  case True
  then obtain d opts where "opn = Push d opts" "\<not> is_immediate opts" by blast
  then show ?thesis by (simp add: call_eq enqueue_eq calls_on_def)
next
  case False
  then obtain r where
    "snd (call now opn c) =
       request_op r (Caller (next_promise c)) (c\<lparr>next_promise := Suc (next_promise c)\<rparr>)"
    by (cases opn) (auto simp: call_eq op_defs)
  moreover have "calls_on p (request_op r (Caller (next_promise c))
                   (c\<lparr>next_promise := Suc (next_promise c)\<rparr>))
                 = calls_on p (c\<lparr>next_promise := Suc (next_promise c)\<rparr>)"
    using assms by (intro calls_on_request_op) simp
  ultimately show ?thesis by (simp add: calls_on_def)
qed

lemma calls_on_step:
  assumes "inv c" and "p < next_promise c"
  shows "calls_on p (step e c) =
           calls_on p c @
             (case e of
                Complete rid outcome \<Rightarrow>
                  (case map_of (inflight c) rid of
                     None \<Rightarrow> []
                   | Some w \<Rightarrow>
                       if awaited_promise w = p
                       then [case outcome of
                               Inr response \<Rightarrow> Resolved p response
                             | Inl err \<Rightarrow> Rejected p err]
                       else [])
              | Fire h \<Rightarrow>
                  if map_of (timers c) h \<noteq> None \<and> p \<in> set (queued c)
                  then (case http c of Inl err \<Rightarrow> [Rejected p err] | Inr c1 \<Rightarrow> [])
                  else []
              | StaleFire \<Rightarrow>
                  if p \<in> set (queued c)
                  then (case http c of Inl err \<Rightarrow> [Rejected p err] | Inr c1 \<Rightarrow> [])
                  else []
              | _ \<Rightarrow> [])"
proof -
  from inv_counts [OF assms(1), of p] assms(2)
  have once: "count (mset (queued c)) p \<le> 1" by simp
  show ?thesis
  proof (cases e)
    case (Call now opn)
    with assms(2) show ?thesis by (simp add: calls_on_call)
  next
    case (SetApiKey k)
    then show ?thesis by (simp add: setApiKey_def calls_on_def)
  next
    case (SetTeamId i)
    then show ?thesis by (simp add: setTeamId_def calls_on_def)
  next
    case (SetBaseURL u)
    then show ?thesis by (simp add: setBaseURL_def calls_on_def)
  next
    case (Fire h)
    let ?c = "c\<lparr>timers := filter (\<lambda>t. fst t \<noteq> h) (timers c)\<rparr>"
    have "count (mset (queued ?c)) p \<le> 1" using once by (simp add: queued_def)
    from calls_on_processQueue [OF this]
    have "calls_on p (processQueue ?c) =
            calls_on p c @
              (if p \<in> set (queued c)
               then (case http c of Inl err \<Rightarrow> [Rejected p err] | Inr c1 \<Rightarrow> [])
               else [])"
      by (simp add: calls_on_def queued_def http_case_cong [of ?c c])
    with Fire show ?thesis by (auto split: option.splits)
  next
    case StaleFire
    with calls_on_processQueue [OF once] show ?thesis by simp
  next
    case (Complete rid outcome)
    then show ?thesis
      by (auto simp: settle_eq settlement_of_def calls_on_def split: option.splits sum.splits)
  qed
qed

lemma settlements_complete_all:
  assumes "inflight c = fl" and "distinct (map fst fl)"
  shows "settlements (complete_all outcomes (map fst fl) c) =
           settlements c @
             map (\<lambda>e. settlement_of (awaited_promise (snd e)) (outcomes (fst e))) fl"
  using assms
proof (induction fl arbitrary: c)
  case Nil
  then show ?case by simp
next
  case (Cons e fl)
  obtain rid w where e: "e = (rid, w)" by (cases e)
  let ?c = "step (Complete rid (outcomes rid)) c"
  from Cons.prems e have look: "map_of (inflight c) rid = Some w" by simp
  from Cons.prems e have "filter (\<lambda>x. fst x \<noteq> rid) (inflight c) = fl"
    by (auto simp: filter_id_conv image_iff)
  with look have c': "?c = c\<lparr>inflight := fl,
                       settlements := settlements c @
                         [settlement_of (awaited_promise w) (outcomes rid)]\<rparr>"
    by (simp add: settle_eq)
  then have "inflight ?c = fl" by simp
  moreover from Cons.prems have "distinct (map fst fl)" by simp
  ultimately have "settlements (complete_all outcomes (map fst fl) ?c) =
      settlements ?c @ map (\<lambda>e. settlement_of (awaited_promise (snd e)) (outcomes (fst e))) fl"
    by (rule Cons.IH)
  then show ?case
    by (simp add: e c' del: step.simps)
qed

lemma requests_complete_all [simp]:
  "requests (complete_all outcomes rids c) = requests c"
  by (induction rids arbitrary: c) (simp_all add: settle_eq split: option.splits)

lemma single_call:
  assumes "x \<in> set (settlements c)" "settled_promise x = p" "settle_count c p = 1"
  shows "calls_on p c = [x]"
proof -
  from assms(1,2) have "x \<in> set (calls_on p c)" by (simp add: calls_on_def)
  moreover from assms(3) have "length (calls_on p c) = 1" by (simp add: settle_count_calls_on)
  ultimately show ?thesis by (cases "calls_on p c") auto
qed

lemma drain_fired:
  "drain outcomes c = complete_all outcomes (map fst (inflight (fired c))) (fired c)"
  by (simp add: drain_def fired_def Let_def del: step.simps)

lemma settlements_drain:
  assumes "inv c"
  shows "settlements (drain outcomes c) =
           settlements (fired c) @
             map (\<lambda>e. settlement_of (awaited_promise (snd e)) (outcomes (fst e)))
               (inflight (fired c))"
proof -
  have "inv (fired c)"
    using assms by (auto simp: fired_def inv_step split: option.splits simp del: step.simps)
  then have "distinct (map fst (inflight (fired c)))" by (simp add: inv_def inflight_ok_def)
  from settlements_complete_all [OF refl this] show ?thesis by (simp add: drain_fired)
qed

lemma inflight_request_op:
  "\<exists>extra. inflight (request_op r w c) = inflight c @ extra"
  using request_op_cases [of c r w] by auto

lemma inflight_dispatch:
  "\<exists>extra. inflight (dispatch items snapshot c) = inflight c @ extra"
proof (induction items arbitrary: c)
  case Nil
  then show ?case by simp
next
  case (Cons item items)
  from inflight_request_op [of "POST ''/api/pulse'' (data item)" "Item item snapshot" c]
  obtain x where x: "inflight (request_op (POST ''/api/pulse'' (data item)) (Item item snapshot) c)
      = inflight c @ x" by blast
  from Cons [of "request_op (POST ''/api/pulse'' (data item)) (Item item snapshot) c"]
  obtain y where "inflight (dispatch items snapshot
        (request_op (POST ''/api/pulse'' (data item)) (Item item snapshot) c))
      = inflight (request_op (POST ''/api/pulse'' (data item)) (Item item snapshot) c) @ y"
    by blast
  with x show ?case by (simp add: pulse_create_def)
qed

lemma inflight_fired: "set (inflight c) \<subseteq> set (inflight (fired c))"
proof -
  have "set (inflight c) \<subseteq> set (inflight (processQueue c'))" if "inflight c' = inflight c" for c'
  proof (cases "queue c' = []")
    case True
    with that show ?thesis by (simp add: processQueue_eq)
  next
    case False
    let ?c = "c'\<lparr>queue := [], pushTimeout := None, maxAgeTimeout := None,
               timers := cleared (maxAgeTimeout c') (cleared (pushTimeout c') (timers c'))\<rparr>"
    from inflight_dispatch [of "queue c'" "queue c'" ?c] obtain extra where
      "inflight (dispatch (queue c') (queue c') ?c) = inflight c' @ extra" by auto
    with False that show ?thesis by (simp add: processQueue_eq)
  qed
  from this [of "c\<lparr>timers := filter (\<lambda>t. fst t \<noteq> h) (timers c)\<rparr>" for h]
  show ?thesis
    by (auto simp: fired_def split: option.splits)
qed

lemma fired_queued:
  assumes "inv c" and "queue c \<noteq> []"
  shows "\<exists>h. fired c = processQueue (c\<lparr>timers := filter (\<lambda>t. fst t \<noteq> h) (timers c)\<rparr>)"
proof -
  from assms obtain h where h: "pushTimeout c = Some h" "h \<in> fst ` set (timers c)"
    by (auto simp: inv_def timers_ok_def)
  then have "map_of (timers c) h \<noteq> None" by (simp add: map_of_eq_None_iff)
  with h show ?thesis by (auto simp: fired_def)
qed

lemma drained_entry:
  assumes "inv c" and "p < next_promise c"
    and "x \<in> set (settlements (drain outcomes c))" and "settled_promise x = p"
  shows "calls_on p (drain outcomes c) = [x]"
  using assms(3,4) drained_counts [OF assms(1,2), of outcomes] by (rule single_call)

lemma drained_inflight:
  assumes "inv c" and "p < next_promise c"
    and "(rid, w) \<in> set (inflight (fired c))" and "awaited_promise w = p"
  shows "calls_on p (drain outcomes c) = [settlement_of p (outcomes rid)]"
proof -
  from assms(3) have
    "settlement_of (awaited_promise (snd (rid, w))) (outcomes (fst (rid, w)))
       \<in> set (settlements (drain outcomes c))"
    unfolding settlements_drain [OF assms(1)] by (simp only: set_append set_map) blast
  with assms(4) have "settlement_of p (outcomes rid) \<in> set (settlements (drain outcomes c))"
    by simp
  from drained_entry [OF assms(1,2) this] show ?thesis by simp
qed

text \<open>
  Claim C1. Take any history of the client, a \<open>push\<close> of the data \<open>d\<close> without
  \<open>immediately\<close> that returns the promise \<open>p\<close>, and any continuation of calls, timer
  firings (also of a timer callback that runs after the other timer has flushed)
  and request completions. Then \<open>resolve\<close> and \<open>reject\<close> of \<open>p\<close> have been called at
  most once in total; they have not been called exactly while the item is still
  queued or its request is in flight; a queued item always has a live quiet-period
  timer that will flush it; and once that timer has fired and the requests in
  flight have completed, with whatever outcomes, exactly one call has been made.

  Which call it is: an event adds a call on \<open>p\<close> only when it completes the request
  of the item, and then it is \<open>resolve\<close> with the response of that request or
  \<open>reject\<close> with its error; or when it flushes the queue that holds the item while
  \<open>http()\<close> throws, and then it is \<open>reject\<close> with that error. The queued item holds
  the data \<open>d\<close>; its request in flight is the \<^verbatim>\<open>POST\<close> of \<open>d\<close> to \<^verbatim>\<open>/api/pulse\<close>; and the
  one call made by the time the client is drained is \<open>resolve\<close> with the response
  of that very request, \<open>reject\<close> with the error of that very request, or, where
  \<open>http()\<close> throws at the flush, \<open>reject\<close> with the error thrown.
\<close>

theorem C1_item_settled_exactly_once:
  assumes "\<not> is_immediate opts"
    and "call now (Push d opts) (exec es (constructor config)) = (Inr p, c0)"
    and "c = exec es' c0"
  shows "settle_count c p \<le> 1 \<and>
         (settle_count c p = 0 \<longleftrightarrow> p \<in> set (queued c) \<or> p \<in> set (waiting c)) \<and>
         (p \<in> set (queued c) \<longrightarrow> (\<exists>h. pushTimeout c = Some h \<and> h \<in> fst ` set (timers c))) \<and>
         settle_count (drain outcomes c) p = 1 \<and>
         (\<forall>e. calls_on p (step e c) =
            calls_on p c @
              (case e of
                 Complete rid outcome \<Rightarrow>
                   (case map_of (inflight c) rid of
                      None \<Rightarrow> []
                    | Some w \<Rightarrow>
                        if awaited_promise w = p
                        then [case outcome of
                                Inr response \<Rightarrow> Resolved p response
                              | Inl err \<Rightarrow> Rejected p err]
                        else [])
               | Fire h \<Rightarrow>
                   if map_of (timers c) h \<noteq> None \<and> p \<in> set (queued c)
                   then (case http c of Inl err \<Rightarrow> [Rejected p err] | Inr c1 \<Rightarrow> [])
                   else []
               | StaleFire \<Rightarrow>
                   if p \<in> set (queued c)
                   then (case http c of Inl err \<Rightarrow> [Rejected p err] | Inr c1 \<Rightarrow> [])
                   else []
               | _ \<Rightarrow> [])) \<and>
         (\<forall>item \<in> set (queue c). promise item = p \<longrightarrow> data item = d) \<and>
         (\<forall>rid w. map_of (inflight c) rid = Some w \<and> awaited_promise w = p \<longrightarrow>
            rid < length (requests c) \<and> requests c ! rid = POST ''/api/pulse'' d \<and>
            calls_on p c = [] \<and>
            calls_on p (drain outcomes c) =
              [case outcomes rid of
                 Inr response \<Rightarrow> Resolved p response
               | Inl err \<Rightarrow> Rejected p err]) \<and>
         (p \<in> set (queued c) \<longrightarrow>
            calls_on p c = [] \<and>
            (\<forall>err. http c = Inl err \<longrightarrow> calls_on p (drain outcomes c) = [Rejected p err]) \<and>
            (\<forall>c1. http c = Inr c1 \<longrightarrow>
               (\<exists>k < length (queue c).
                  promise (queue c ! k) = p \<and> data (queue c ! k) = d \<and>
                  calls_on p (drain outcomes c) =
                    [case outcomes (length (requests c) + k) of
                       Inr response \<Rightarrow> Resolved p response
                     | Inl err \<Rightarrow> Rejected p err])))"
proof -
  let ?b = "exec es (constructor config)"
  have invb: "inv ?b" by (simp add: inv_constructor inv_exec)
  then have "inv (snd (call now (Push d opts) ?b))" by (rule inv_call)
  with assms(2) have "inv c0" by simp
  with assms(3) have inv: "inv c" by (simp add: inv_exec)
  from assms(2) have pb: "p = next_promise ?b"
    and c0: "c0 = enqueue (next_promise ?b) now d opts (?b\<lparr>next_promise := Suc (next_promise ?b)\<rparr>)"
    using assms(1) by (auto simp: call_eq)
  then have p0: "p < next_promise c0" by simp
  with next_promise_exec [of c0 es'] assms(3) have p: "p < next_promise c" by simp
  have "carries p d c0" unfolding pb c0 using invb by (rule carries_after_push)
  with p0 assms(3) have car: "carries p d c" by (simp add: carries_exec)
  from inv_counts [OF inv, of p] p
  have sum: "settle_count c p + count (mset (queued c)) p + count (mset (waiting c)) p = 1"
    by simp
  then have one: "settle_count c p \<le> 1" by simp
  from sum have zero:
    "settle_count c p = 0 \<longleftrightarrow> p \<in> set (queued c) \<or> p \<in> set (waiting c)"
    using count_mset_0_iff [of "queued c" p] count_mset_0_iff [of "waiting c" p]
    by arith
  then have none: "p \<in> set (queued c) \<or> p \<in> set (waiting c) \<Longrightarrow> calls_on p c = []"
    by (simp add: settle_count_calls_on)
  have timer: "p \<in> set (queued c) \<longrightarrow> (\<exists>h. pushTimeout c = Some h \<and> h \<in> fst ` set (timers c))"
    using inv by (auto simp: inv_def timers_ok_def queued_def)
  have drained: "settle_count (drain outcomes c) p = 1"
    using inv p by (rule drained_counts)
  note steps = calls_on_step [OF inv p]
  have items: "\<forall>item \<in> set (queue c). promise item = p \<longrightarrow> data item = d"
    using car by (simp add: carries_def)
  have flying: "\<forall>rid w. map_of (inflight c) rid = Some w \<and> awaited_promise w = p \<longrightarrow>
            rid < length (requests c) \<and> requests c ! rid = POST ''/api/pulse'' d \<and>
            calls_on p c = [] \<and>
            calls_on p (drain outcomes c) =
              [case outcomes rid of
                 Inr response \<Rightarrow> Resolved p response
               | Inl err \<Rightarrow> Rejected p err]"
  proof (intro allI impI, elim conjE)
    fix rid w
    assume look: "map_of (inflight c) rid = Some w" and w: "awaited_promise w = p"
    from look have mem: "(rid, w) \<in> set (inflight c)" by (rule map_of_SomeD)
    with car w have "rid < length (requests c)" "requests c ! rid = POST ''/api/pulse'' d"
      by (auto simp: carries_def)
    moreover from mem w have "p \<in> set (waiting c)" by (force simp: waiting_def)
    then have "calls_on p c = []" by (simp add: none)
    moreover from mem inflight_fired [of c] have "(rid, w) \<in> set (inflight (fired c))" by auto
    from drained_inflight [OF inv p this w, of outcomes]
    have "calls_on p (drain outcomes c) =
              [case outcomes rid of
                 Inr response \<Rightarrow> Resolved p response
               | Inl err \<Rightarrow> Rejected p err]"
      by (simp add: settlement_of_def)
    ultimately show "rid < length (requests c) \<and> requests c ! rid = POST ''/api/pulse'' d \<and>
            calls_on p c = [] \<and>
            calls_on p (drain outcomes c) =
              [case outcomes rid of
                 Inr response \<Rightarrow> Resolved p response
               | Inl err \<Rightarrow> Rejected p err]"
      by simp
  qed
  have waiting_q: "p \<in> set (queued c) \<longrightarrow>
            calls_on p c = [] \<and>
            (\<forall>err. http c = Inl err \<longrightarrow> calls_on p (drain outcomes c) = [Rejected p err]) \<and>
            (\<forall>c1. http c = Inr c1 \<longrightarrow>
               (\<exists>k < length (queue c).
                  promise (queue c ! k) = p \<and> data (queue c ! k) = d \<and>
                  calls_on p (drain outcomes c) =
                    [case outcomes (length (requests c) + k) of
                       Inr response \<Rightarrow> Resolved p response
                     | Inl err \<Rightarrow> Rejected p err]))"
  proof
    assume q: "p \<in> set (queued c)"
    then have ne: "queue c \<noteq> []" by (auto simp: queued_def)
    from fired_queued [OF inv ne] obtain h where
      f: "fired c = processQueue (c\<lparr>timers := filter (\<lambda>t. fst t \<noteq> h) (timers c)\<rparr>)" by blast
    let ?ct = "c\<lparr>timers := filter (\<lambda>t. fst t \<noteq> h) (timers c)\<rparr>"
    let ?cc = "?ct\<lparr>queue := [], pushTimeout := None, maxAgeTimeout := None,
               timers := cleared (maxAgeTimeout ?ct) (cleared (pushTimeout ?ct) (timers ?ct))\<rparr>"
    from ne have pq: "fired c = dispatch (queue c) (queue c) ?cc"
      by (simp add: f processQueue_eq)
    have failing: "calls_on p (drain outcomes c) = [Rejected p err]" if "http c = Inl err" for err
    proof -
      have "http ?cc = Inl err \<longleftrightarrow> http c = Inl err" by (rule http_Inl_cong) simp_all
      with that have "http ?cc = Inl err" by (simp only:)
      from dispatch_rejected [OF this, of "queue c" "queue c"]
      have "settlements (fired c) = settlements c @ map (\<lambda>i. Rejected (promise i) err) (queue c)"
        by (simp add: pq)
      moreover from q have "Rejected p err \<in> set (map (\<lambda>i. Rejected (promise i) err) (queue c))"
        by (auto simp: queued_def)
      ultimately have "Rejected p err \<in> set (settlements (drain outcomes c))"
        unfolding settlements_drain [OF inv] by simp
      from drained_entry [OF inv p this] show ?thesis by simp
    qed
    have sending: "\<exists>k < length (queue c).
                  promise (queue c ! k) = p \<and> data (queue c ! k) = d \<and>
                  calls_on p (drain outcomes c) =
                    [case outcomes (length (requests c) + k) of
                       Inr response \<Rightarrow> Resolved p response
                     | Inl err \<Rightarrow> Rejected p err]" if "http c = Inr c1" for c1
    proof -
      have "\<And>e. http ?cc = Inl e \<longleftrightarrow> http c = Inl e" by (rule http_Inl_cong) simp_all
      with that have "\<And>e. http ?cc \<noteq> Inl e" by (simp only:) simp
      then obtain c2 where "http ?cc = Inr c2" by (cases "http ?cc") auto
      from dispatch_sent [OF this, of "queue c" "queue c"]
      have fl: "inflight (fired c) =
                inflight c @
                  map (\<lambda>k. (length (requests c) + k, Item (queue c ! k) (queue c)))
                    [0..<length (queue c)]"
        by (simp add: pq)
      from q obtain k where k: "k < length (queue c)" "promise (queue c ! k) = p"
        by (auto simp: queued_def in_set_conv_nth)
      with items have dk: "data (queue c ! k) = d" by simp
      from k(1) have "(length (requests c) + k, Item (queue c ! k) (queue c))
                       \<in> set (inflight (fired c))"
        unfolding fl by (simp only: set_append set_map) (simp add: image_iff)
      from drained_inflight [OF inv p this, of outcomes] k(2)
      have "calls_on p (drain outcomes c) =
              [case outcomes (length (requests c) + k) of
                 Inr response \<Rightarrow> Resolved p response
               | Inl err \<Rightarrow> Rejected p err]"
        by (simp add: settlement_of_def)
      with k dk show ?thesis by blast
    qed
    from q none failing sending show
      "calls_on p c = [] \<and>
       (\<forall>err. http c = Inl err \<longrightarrow> calls_on p (drain outcomes c) = [Rejected p err]) \<and>
       (\<forall>c1. http c = Inr c1 \<longrightarrow>
          (\<exists>k < length (queue c).
             promise (queue c ! k) = p \<and> data (queue c ! k) = d \<and>
             calls_on p (drain outcomes c) =
               [case outcomes (length (requests c) + k) of
                  Inr response \<Rightarrow> Resolved p response
                | Inl err \<Rightarrow> Rejected p err]))"
      by blast
  qed
  from one zero timer drained steps items flying waiting_q show ?thesis
    by (intro conjI allI) blast+
qed

text \<open>
  An instance: the item alone in the queue, drained with a failing first request,
  is rejected with the error of that request. Then two pushes, the quiet-period
  timer of the second fires, the max-wait callback runs as well: the request of
  the first item carries its data, a response resolves the promise with that
  response, and the failing request rejects it with the error of the request.
\<close>

theorem C1_witness:
  "\<not> is_immediate None \<and>
   call 0 (Push (JStr ''a'') None) (exec [] (constructor (Some example_config))) =
     (Inr 0, snd (call 0 (Push (JStr ''a'') None) (constructor (Some example_config)))) \<and>
   0 \<in> set (queued (snd (call 0 (Push (JStr ''a'') None) (constructor (Some example_config))))) \<and>
   calls_on 0
     (drain (\<lambda>rid. if rid = 0 then Inl (RequestError JNull) else Inr (JStr ''ok''))
        (snd (call 0 (Push (JStr ''a'') None) (constructor (Some example_config))))) =
     [Rejected 0 (RequestError JNull)] \<and>
   settle_count
     (exec [Call 5 (Push (JStr ''b'') None), Fire 3, StaleFire]
        (snd (call 0 (Push (JStr ''a'') None) (constructor (Some example_config))))) 0 = 0 \<and>
   requests
     (exec [Call 5 (Push (JStr ''b'') None), Fire 3, StaleFire]
        (snd (call 0 (Push (JStr ''a'') None) (constructor (Some example_config))))) ! 0 =
     POST ''/api/pulse'' (JStr ''a'') \<and>
   calls_on 0
     (step (Complete 0 (Inr (JStr ''ok'')))
        (exec [Call 5 (Push (JStr ''b'') None), Fire 3, StaleFire]
           (snd (call 0 (Push (JStr ''a'') None) (constructor (Some example_config)))))) =
     [Resolved 0 (JStr ''ok'')] \<and>
   calls_on 0
     (drain (\<lambda>rid. if rid = 0 then Inl (RequestError JNull) else Inr (JStr ''ok''))
        (exec [Call 5 (Push (JStr ''b'') None), Fire 3, StaleFire]
           (snd (call 0 (Push (JStr ''a'') None) (constructor (Some example_config)))))) =
     [Rejected 0 (RequestError JNull)] \<and>
   settle_count
     (drain (\<lambda>rid. if rid = 0 then Inl (RequestError JNull) else Inr (JStr ''ok''))
        (exec [Call 5 (Push (JStr ''b'') None), Fire 3, StaleFire]
           (snd (call 0 (Push (JStr ''a'') None) (constructor (Some example_config)))))) 0 = 1"
proof -
  let ?c0 = "snd (call 0 (Push (JStr ''a'') None) (constructor (Some example_config)))"
  let ?es = "[Call 5 (Push (JStr ''b'') None), Fire 3, StaleFire]"
  let ?out = "\<lambda>rid::nat. if rid = 0 then Inl (RequestError JNull) else Inr (JStr ''ok'')"
  define c where "c = exec ?es ?c0"
  define c0 where "c0 = ?c0"
  have h1: "\<not> is_immediate None" by (simp add: is_immediate_def)
  have h2: "call 0 (Push (JStr ''a'') None) (exec [] (constructor (Some example_config))) =
              (Inr 0, c0)"
    by (simp add: call_eq constructor_def c0_def)
  have q: "0 \<in> set (queued c0)" unfolding c0_def by code_simp
  have lq: "length (queue c0) = Suc 0" unfolding c0_def by code_simp
  have lr: "length (requests c0) = 0" unfolding c0_def by code_simp
  have "\<not> isl (http c0)" unfolding c0_def by code_simp
  then obtain c1 where c1: "http c0 = Inr c1" by (cases "http c0") auto
  have e0: "c0 = exec [] c0" by simp
  from C1_item_settled_exactly_once [OF h1 h2 e0, of ?out] q c1 obtain k where
    k: "k < length (queue c0)"
       "calls_on 0 (drain ?out c0) =
          [case ?out (length (requests c0) + k) of
             Inr response \<Rightarrow> Resolved 0 response
           | Inl err \<Rightarrow> Rejected 0 err]"
    by blast
  from k(1) lq have "k = 0" by simp
  with k(2) lr have A: "calls_on 0 (drain ?out c0) = [Rejected 0 (RequestError JNull)]"
    by simp
  have "map_of (inflight (exec ?es ?c0)) 0 \<noteq> None \<and>
        awaited_promise (the (map_of (inflight (exec ?es ?c0)) 0)) = 0"
    by code_simp
  then obtain w where w: "map_of (inflight c) 0 = Some w" "awaited_promise w = 0"
    unfolding c_def by auto
  have cdef: "c = exec ?es c0" by (simp only: c_def c0_def)
  note T = C1_item_settled_exactly_once [OF h1 h2 cdef, of ?out]
  from T w have B: "requests c ! 0 = POST ''/api/pulse'' (JStr ''a'')" by blast
  from T w have N: "calls_on 0 c = []" by blast
  from T w have "calls_on 0 (drain ?out c) =
                   [case ?out 0 of
                      Inr response \<Rightarrow> Resolved 0 response
                    | Inl err \<Rightarrow> Rejected 0 err]"
    by blast
  then have F: "calls_on 0 (drain ?out c) = [Rejected 0 (RequestError JNull)]" by simp
  from T have "calls_on 0 (step (Complete 0 (Inr (JStr ''ok''))) c) =
     calls_on 0 c @
       (case Complete 0 (Inr (JStr ''ok'')) of
          Complete rid outcome \<Rightarrow>
            (case map_of (inflight c) rid of
               None \<Rightarrow> []
             | Some w \<Rightarrow>
                 if awaited_promise w = 0
                 then [case outcome of
                         Inr response \<Rightarrow> Resolved 0 response
                       | Inl err \<Rightarrow> Rejected 0 err]
                 else [])
        | Fire h \<Rightarrow>
            if map_of (timers c) h \<noteq> None \<and> 0 \<in> set (queued c)
            then (case http c of Inl err \<Rightarrow> [Rejected 0 err] | Inr c1 \<Rightarrow> [])
            else []
        | StaleFire \<Rightarrow>
            if 0 \<in> set (queued c)
            then (case http c of Inl err \<Rightarrow> [Rejected 0 err] | Inr c1 \<Rightarrow> [])
            else []
        | _ \<Rightarrow> [])"
    by blast
  with w N have C: "calls_on 0 (step (Complete 0 (Inr (JStr ''ok''))) c) =
                      [Resolved 0 (JStr ''ok'')]"
    by (simp del: step.simps)
  from T have D: "settle_count (drain ?out c) 0 = 1" by blast
  from N have E: "settle_count c 0 = 0" by (simp add: settle_count_calls_on)
  from h1 h2 q A E B C F D show ?thesis unfolding c_def c0_def by blast
qed

subsection \<open>The query builder\<close>

text \<open>
  Claim C10. In \<^verbatim>\<open>src/maxflow.ts\<close>, when \<open>match\<close> is a mapping and not an array,
  building the query throws a \<^verbatim>\<open>TypeError\<close>; \<open>pulse.find\<close> rejects its promise with
  it and changes nothing else: \<open>http()\<close> is not reached and no request is sent.
\<close>

theorem C10_flat_match_type_error_maxflow:
  assumes "match d = Some (MatchMap m)"
  shows "find_query_maxflow d = Inl TypeError \<and>
         pulse_find_maxflow d (Caller p) c =
           c\<lparr>settlements := settlements c @ [Rejected p TypeError]\<rparr> \<and>
         requests (pulse_find_maxflow d (Caller p) c) = requests c \<and>
         inflight (pulse_find_maxflow d (Caller p) c) = inflight c \<and>
         axiosInstance (pulse_find_maxflow d (Caller p) c) = axiosInstance c"
proof -
  from assms have q: "find_query_maxflow d = Inl TypeError"
    by (simp add: find_query_maxflow_def)
  then have "pulse_find_maxflow d (Caller p) c =
               c\<lparr>settlements := settlements c @ [Rejected p TypeError]\<rparr>"
    by (simp add: pulse_find_maxflow_def settle_def)
  with q show ?thesis by simp
qed

text \<open>An instance: the mapping of the README, on a fully configured client.\<close>

theorem C10_witness:
  "match \<lparr>match = Some (MatchMap [(''userId'', JObj [(''$eq'', JStr ''12345'')])]),
          page = Some 1, pageSize = Some 25, sort = None, orderBy = None, search = None\<rparr>
     = Some (MatchMap [(''userId'', JObj [(''$eq'', JStr ''12345'')])]) \<and>
   settlements
     (pulse_find_maxflow
        \<lparr>match = Some (MatchMap [(''userId'', JObj [(''$eq'', JStr ''12345'')])]),
         page = Some 1, pageSize = Some 25, sort = None, orderBy = None, search = None\<rparr>
        (Caller 0) (constructor (Some example_config)))
     = [Rejected 0 TypeError] \<and>
   requests
     (pulse_find_maxflow
        \<lparr>match = Some (MatchMap [(''userId'', JObj [(''$eq'', JStr ''12345'')])]),
         page = Some 1, pageSize = Some 25, sort = None, orderBy = None, search = None\<rparr>
        (Caller 0) (constructor (Some example_config)))
     = []"
proof -
  let ?d = "\<lparr>match = Some (MatchMap [(''userId'', JObj [(''$eq'', JStr ''12345'')])]),
         page = Some 1, pageSize = Some 25, sort = None, orderBy = None, search = None\<rparr>"
  have h: "match ?d = Some (MatchMap [(''userId'', JObj [(''$eq'', JStr ''12345'')])])"
    by simp
  have c: "settlements (constructor (Some example_config)) = []"
    "requests (constructor (Some example_config)) = []"
    by (simp_all add: constructor_def)
  from C10_flat_match_type_error_maxflow [OF h, of 0 "constructor (Some example_config)"] c
  show ?thesis by simp
qed

text \<open>
  Claim C2 does not hold of the code. The \<open>else\<close> branch of
  \<^verbatim>\<open>src/maxflowClient.ts\<close> reads the members \<open>field\<close>, \<open>operator\<close> and \<open>value\<close> of
  the mapping and applies the \<open>$\<close> prefix. For the mapping of the README,
  \<^verbatim>\<open>{ userId: { $eq: '12345' }, createdAt: { $gte: '2023-01-01' } }\<close>, the three
  members are \<open>undefined\<close>, and neither key reaches the query.
\<close>

theorem C2_flat_match_read_as_one_triple:
  "find_query
     \<lparr>match = Some (MatchMap [(''userId'', JObj [(''$eq'', JStr ''12345'')]),
                              (''createdAt'', JObj [(''$gte'', JStr ''2023-01-01'')])]),
      page = Some 1, pageSize = Some 25, sort = None, orderBy = None, search = None\<rparr>
   = [(''match'', JObj [(''undefined'', JObj [(''$undefined'', JUndefined)])]),
      (''page'', JNum 1), (''pageSize'', JNum 25)]"
  by code_simp

text \<open>
  The same for every mapping that has none of the three members: whatever its
  keys, the match of the query is the one entry \<open>undefined\<close>.
\<close>

lemma flat_match_keys_dropped:
  assumes "map_of m ''field'' = None" "map_of m ''operator'' = None" "map_of m ''value'' = None"
  shows "build_match (MatchMap m) = [(''undefined'', JObj [(''$undefined'', JUndefined)])]"
  using assms by (simp add: obj_get_def condition_def)

text \<open>
  A mapping that is one triple, \<^verbatim>\<open>{field: f, operator: op, value: v}\<close>, is what
  the branch handles.
\<close>

lemma flat_match_single_triple:
  "build_match (MatchMap [(''field'', JStr f), (''operator'', JStr op), (''value'', v)])
     = [(f, JObj [(''$'' @ op, v)])]"
  by (simp add: obj_get_def condition_def)

text \<open>
  Claim C3 holds for every field name but one. A triple whose field is
  \<open>__proto__\<close> leaves no entry in the match of the query, in both variants.
\<close>

theorem C3_proto_field_dropped:
  "find_query
     \<lparr>match = Some (MatchList [\<lparr>mfield = ''__proto__'', operator = ''eq'', mvalue = JStr ''x''\<rparr>]),
      page = None, pageSize = None, sort = None, orderBy = None, search = None\<rparr>
     = [(''match'', JObj [])] \<and>
   find_query_maxflow
     \<lparr>match = Some (MatchList [\<lparr>mfield = ''__proto__'', operator = ''eq'', mvalue = JStr ''x''\<rparr>]),
      page = None, pageSize = None, sort = None, orderBy = None, search = None\<rparr>
     = Inr [(''match'', JObj [])]"
  by code_simp

text \<open>
  For all other field names the loop is last-write-wins: the entry of a field is
  the condition of the last triple that names it.
\<close>

lemma map_of_insert_key:
  "map_of ps k = None \<Longrightarrow> map_of (insert_key k v ps) = (map_of ps)(k \<mapsto> v)"
proof (induction ps)
  case Nil
  then show ?case by simp
next
  case (Cons p ps)
  then have "fst p \<noteq> k" "map_of ps k = None"
    by (cases p; auto split: if_splits)+
  with Cons.IH show ?case
    by (cases p) (auto simp: fun_upd_twist)
qed

lemma map_of_set_own: "map_of (set_own ps k v) = (map_of ps)(k \<mapsto> v)"
  by (cases "map_of ps k") (simp_all add: set_own_def map_of_insert_key update_conv')

lemma update_insert_key:
  "map_of ps k = None \<Longrightarrow> AList.update k v' (insert_key k v ps) = insert_key k v' ps"
proof (induction ps)
  case Nil
  then show ?case by simp
next
  case (Cons p ps)
  then have "fst p \<noteq> k" "map_of ps k = None"
    by (cases p; auto split: if_splits)+
  with Cons.IH show ?case
    by (cases p) auto
qed

lemma set_own_twice: "set_own (set_own ps k v) k v' = set_own ps k v'"
proof (cases "map_of ps k")
  case None
  then have "map_of (insert_key k v ps) k = Some v" by (simp add: map_of_insert_key)
  with None show ?thesis by (simp add: set_own_def update_insert_key)
next
  case (Some old)
  then have "map_of (AList.update k v ps) k = Some v" by (simp add: update_conv')
  with Some show ?thesis by (simp add: set_own_def)
qed

lemma map_of_match_loop:
  assumes "\<forall>i \<in> set items. mfield i \<noteq> ''__proto__''"
  shows "map_of (match_loop items m) =
           map_of m ++
           map_of (rev (map (\<lambda>i. (mfield i, condition (operator i) (mvalue i))) items))"
  using assms
proof (induction items arbitrary: m)
  case Nil
  then show ?case by simp
next
  case (Cons item items)
  then have "map_of (match_loop (item # items) m) =
      (map_of m)(mfield item \<mapsto> condition (operator item) (mvalue item)) ++
      map_of (rev (map (\<lambda>i. (mfield i, condition (operator i) (mvalue i))) items))"
    by (auto simp: obj_set_def map_of_set_own)
  then show ?case
    by (intro ext) (simp add: map_add_def split: option.splits)
qed

lemma match_list_last_write_wins:
  assumes "\<forall>i \<in> set (items @ [item]). mfield i \<noteq> ''__proto__''"
  shows "map_of (build_match (MatchList (items @ [item]))) =
           (map_of (build_match (MatchList items)))
             (mfield item \<mapsto> JObj [(''$'' @ operator item, mvalue item)])"
proof -
  from assms have "\<forall>i \<in> set items. mfield i \<noteq> ''__proto__''" by simp
  from map_of_match_loop [OF assms, of "[]"] map_of_match_loop [OF this, of "[]"]
  show ?thesis by (simp add: condition_def)
qed

text \<open>The two examples of the specification.\<close>

lemma match_list_examples:
  "build_match (MatchList [\<lparr>mfield = ''status'', operator = ''eq'', mvalue = JStr ''active''\<rparr>])
     = [(''status'', JObj [(''$eq'', JStr ''active'')])]"
  "build_match (MatchList [\<lparr>mfield = ''a'', operator = ''eq'', mvalue = JNum 1\<rparr>,
                           \<lparr>mfield = ''a'', operator = ''gt'', mvalue = JNum 2\<rparr>])
     = [(''a'', JObj [(''$gt'', JNum 2)])]"
  by code_simp+

text \<open>
  The built object lists its properties as JavaScript enumerates and serialises
  them: integer-like field names first, in ascending order, then the others in
  the order of their first assignment; numbers of 22 digits and more are written
  in exponent notation.
\<close>

lemma match_list_key_order:
  "map fst (build_match (MatchList
      [\<lparr>mfield = ''b'', operator = ''eq'', mvalue = JNum 1\<rparr>,
       \<lparr>mfield = ''10'', operator = ''eq'', mvalue = JNum 2\<rparr>,
       \<lparr>mfield = ''a'', operator = ''eq'', mvalue = JNum 3\<rparr>,
       \<lparr>mfield = ''2'', operator = ''eq'', mvalue = JNum 4\<rparr>,
       \<lparr>mfield = ''01'', operator = ''eq'', mvalue = JNum 5\<rparr>]))
     = [''2'', ''10'', ''b'', ''a'', ''01'']"
  by code_simp

lemma number_to_string_examples:
  "number_to_string 0 = ''0''"
  "number_to_string (- 42) = ''-42''"
  "number_to_string 999999999999999999999 = ''999999999999999999999''"
  "number_to_string 1000000000000000000000 = ''1e+21''"
  "number_to_string (- 1500000000000000000000) = ''-1.5e+21''"
  by code_simp+

text \<open>The loop of \<^verbatim>\<open>src/maxflow.ts\<close> builds the same own properties.\<close>

lemma own_assign_obj: "own (assign_obj mo k ps) = obj_set (own mo) k (JObj ps)"
  by (auto simp: assign_obj_def obj_set_def)

lemma obj_set_twice: "obj_set (obj_set al k v) k v' = obj_set al k v'"
  by (auto simp: obj_set_def map_of_set_own set_own_twice)

lemma match_loop_maxflow_own: "own (match_loop_maxflow items mo) = match_loop items (own mo)"
  by (induction items arbitrary: mo)
     (simp_all add: Let_def own_assign_obj obj_set_twice condition_def)

lemma build_match_maxflow_list:
  "build_match_maxflow (MatchList items) = Inr (build_match (MatchList items))"
  by (simp add: match_loop_maxflow_own)

text \<open>
  Claim C4 holds of \<^verbatim>\<open>src/maxflowClient.ts\<close> and fails in \<^verbatim>\<open>src/maxflow.ts\<close>, which
  writes \<^verbatim>\<open>item.direction || ...\<close>: a direction of 0 is falsy there and is replaced
  by the value derived from \<open>order\<close>.
\<close>

theorem C4_direction_zero_replaced_maxflow:
  "order_entry_maxflow \<lparr>ofield = ''ts'', order = Some ''desc'', direction = Some 0\<rparr>
     = JObj [(''field'', JStr ''ts''), (''direction'', JNum (- 1))] \<and>
   order_entry_maxflow \<lparr>ofield = ''ts'', order = None, direction = Some 0\<rparr>
     = JObj [(''field'', JStr ''ts''), (''direction'', JNum 1)] \<and>
   order_entry \<lparr>ofield = ''ts'', order = Some ''desc'', direction = Some 0\<rparr>
     = JObj [(''field'', JStr ''ts''), (''direction'', JNum 0)] \<and>
   find_query_maxflow
     \<lparr>match = None, page = None, pageSize = None, sort = None,
      orderBy = Some [\<lparr>ofield = ''ts'', order = Some ''desc'', direction = Some 0\<rparr>],
      search = None\<rparr>
     = Inr [(''orderBy'', JArr [JObj [(''field'', JStr ''ts''), (''direction'', JNum (- 1))]])]"
  by code_simp

text \<open>
  In \<^verbatim>\<open>src/maxflowClient.ts\<close> every entry is normalised as the claim says, and the
  output has the two members \<open>field\<close> and \<open>direction\<close> only; \<^verbatim>\<open>src/maxflow.ts\<close>
  agrees whenever the direction given is not 0.
\<close>

lemma order_entry_normalised:
  "order_entry \<lparr>ofield = f, order = ord, direction = Some n\<rparr>
     = JObj [(''field'', JStr f), (''direction'', JNum n)]"
  "order_entry \<lparr>ofield = f, order = Some ''desc'', direction = None\<rparr>
     = JObj [(''field'', JStr f), (''direction'', JNum (- 1))]"
  "ord \<noteq> Some ''desc'' \<Longrightarrow>
   order_entry \<lparr>ofield = f, order = ord, direction = None\<rparr>
     = JObj [(''field'', JStr f), (''direction'', JNum 1)]"
  by (simp_all add: order_entry_def)

lemma find_query_orderBy:
  "map_of (find_query d) ''orderBy'' =
     (case orderBy d of None \<Rightarrow> None | Some os \<Rightarrow> Some (JArr (map order_entry os)))"
  by (simp add: find_query_def obj_set_def Let_def map_of_set_own split: option.splits)

lemma order_entry_maxflow_agrees:
  "direction item \<noteq> Some 0 \<Longrightarrow> order_entry_maxflow item = order_entry item"
  by (simp add: order_entry_maxflow_def order_entry_def split: option.splits)

subsection \<open>Configuration errors\<close>

lemma enqueue_frame [simp]:
  "requests (enqueue p now d opts c) = requests c"
  "inflight (enqueue p now d opts c) = inflight c"
  "settlements (enqueue p now d opts c) = settlements c"
  "axiosInstance (enqueue p now d opts c) = axiosInstance c"
  "apiKey (enqueue p now d opts c) = apiKey c"
  "teamId (enqueue p now d opts c) = teamId c"
  "apiSecret (enqueue p now d opts c) = apiSecret c"
  "queue (enqueue p now d opts c) =
     queue c @ [\<lparr>data = d, timestamp = now, promise = p, options = opts\<rparr>]"
  "timers (enqueue p now d opts c) \<noteq> []"
  by (simp_all add: enqueue_eq)

text \<open>
  Claim C9 does not hold as stated: a client without credentials accepts a
  \<open>push\<close>, returns a promise, starts both timers and reports nothing; the
  configuration error appears only when a timer fires, as the rejection of the
  item's promise.
\<close>

theorem C9_counterexample:
  "validateConfig (constructor None) = Inl (Error ''API Key is not set'') \<and>
   fst (call 0 (Push (JStr ''a'') None) (constructor None)) = Inr 0 \<and>
   timers (snd (call 0 (Push (JStr ''a'') None) (constructor None))) = [(1, 360), (2, 1000)] \<and>
   settlements (snd (call 0 (Push (JStr ''a'') None) (constructor None))) = [] \<and>
   settlements (exec [Call 0 (Push (JStr ''a'') None), Fire 1] (constructor None))
     = [Rejected 0 (Error ''API Key is not set'')] \<and>
   requests (exec [Call 0 (Push (JStr ''a'') None), Fire 1] (constructor None)) = []"
  by code_simp

text \<open>
  Claim C9 as amended. Every public operation returns a promise and never throws
  to its caller. While no Axios instance exists and a credential is missing,
  \<open>http()\<close> throws the configuration error before it creates the instance, and
  no operation sends a request. An operation other than a queued \<open>push\<close> rejects
  its promise with that error at once and starts no timer. A queued \<open>push\<close>
  starts its timers and settles nothing; the flush then sends nothing and
  rejects every queued item with the error. A failed request rejects the promise
  of the operation that sent it.
\<close>

theorem C9_errors_reject_the_promise:
  "fst (call now opn c) = Inr (next_promise c) \<and>
   (\<forall>e. axiosInstance c = None \<and> validateConfig c = Inl e \<longrightarrow>
      http c = Inl e \<and>
      requests (snd (call now opn c)) = requests c \<and>
      axiosInstance (snd (call now opn c)) = None \<and>
      (if \<exists>d opts. opn = Push d opts \<and> \<not> is_immediate opts
       then timers (snd (call now opn c)) \<noteq> [] \<and>
            settlements (snd (call now opn c)) = settlements c \<and>
            requests (processQueue (snd (call now opn c))) = requests c \<and>
            settlements (processQueue (snd (call now opn c))) =
              settlements c @
                map (\<lambda>i. Rejected (promise i) e) (queue (snd (call now opn c)))
       else timers (snd (call now opn c)) = timers c \<and>
            settlements (snd (call now opn c)) =
              settlements c @ [Rejected (next_promise c) e])) \<and>
   (\<forall>rid p err. map_of (inflight c) rid = Some (Caller p) \<longrightarrow>
      settlements (step (Complete rid (Inl err)) c) = settlements c @ [Rejected p err])"
proof -
  define p where "p = next_promise c"
  define c0 where "c0 = c\<lparr>next_promise := Suc p\<rparr>"
  define c' where "c' = snd (call now opn c)"
  have ret: "fst (call now opn c) = Inr (next_promise c)" by (simp add: call_eq)
  have fail: "\<forall>rid p err. map_of (inflight c) rid = Some (Caller p) \<longrightarrow>
      settlements (step (Complete rid (Inl err)) c) = settlements c @ [Rejected p err]"
    by (simp add: settle_eq settlement_of_def)
  have cfg: "http c = Inl e \<and>
      requests c' = requests c \<and>
      axiosInstance c' = None \<and>
      (if \<exists>d opts. opn = Push d opts \<and> \<not> is_immediate opts
       then timers c' \<noteq> [] \<and>
            settlements c' = settlements c \<and>
            requests (processQueue c') = requests c \<and>
            settlements (processQueue c') =
              settlements c @ map (\<lambda>i. Rejected (promise i) e) (queue c')
       else timers c' = timers c \<and>
            settlements c' = settlements c @ [Rejected p e])"
    if none: "axiosInstance c = None" and bad: "validateConfig c = Inl e" for e
  proof -
    from none bad have h: "http c = Inl e" by (simp add: http_Inl_iff)
    have h0: "http c0 = Inl e"
      using h by (simp add: c0_def http_Inl_cong [of "c\<lparr>next_promise := Suc p\<rparr>" c])
    show ?thesis
    proof (cases "\<exists>d opts. opn = Push d opts \<and> \<not> is_immediate opts")
      case True
      then obtain d opts where opn: "opn = Push d opts" "\<not> is_immediate opts" by blast
      then have c': "c' = enqueue p now d opts c0"
        by (simp add: c'_def c0_def p_def call_eq)
      have same: "apiKey c' = apiKey c" "teamId c' = teamId c" "apiSecret c' = apiSecret c"
        "axiosInstance c' = axiosInstance c" "requests c' = requests c"
        "settlements c' = settlements c"
        by (simp_all add: c' c0_def)
      have ne: "queue c' \<noteq> []" "timers c' \<noteq> []" by (simp_all add: c')
      define c1 where "c1 = c'\<lparr>queue := [], pushTimeout := None, maxAgeTimeout := None,
                   timers := cleared (maxAgeTimeout c') (cleared (pushTimeout c') (timers c'))\<rparr>"
      have "axiosInstance c1 = None" "validateConfig c1 = validateConfig c"
        using none same by (simp_all add: c1_def validateConfig_def)
      with bad have "http c1 = Inl e" by (simp add: http_Inl_iff)
      from dispatch_rejected [OF this, of "queue c'" "queue c'"]
      have "processQueue c' =
              c1\<lparr>settlements := settlements c1 @ map (\<lambda>i. Rejected (promise i) e) (queue c')\<rparr>"
        using ne(1) by (simp add: processQueue_eq c1_def)
      then have "requests (processQueue c') = requests c"
        "settlements (processQueue c') =
           settlements c @ map (\<lambda>i. Rejected (promise i) e) (queue c')"
        by (simp_all add: c1_def same)
      with True h ne same none show ?thesis by simp
    next
      case False
      then obtain r where c': "c' = request_op r (Caller p) c0"
        unfolding c'_def c0_def p_def by (cases opn) (auto simp: call_eq op_defs)
      from request_op_rejected [OF h0, of r "Caller p"]
      have "c' = c0\<lparr>settlements := settlements c0 @ [Rejected p e]\<rparr>"
        by (simp add: c')
      then have "requests c' = requests c" "axiosInstance c' = None"
        "timers c' = timers c" "settlements c' = settlements c @ [Rejected p e]"
        using none by (simp_all add: c0_def)
      with False h show ?thesis by simp
    qed
  qed
  from ret cfg fail show ?thesis
    unfolding c'_def p_def by blast
qed

text \<open>
  An instance: \<open>pulse.get\<close> on a client that has a key and a team but no secret.
\<close>

theorem C9_witness:
  "axiosInstance (constructor (Some \<lparr>cfg_apiKey = Some ''key'', cfg_teamId = Some ''team'',
       cfg_baseURL = None, cfg_apiSecret = None\<rparr>)) = None \<and>
   validateConfig (constructor (Some \<lparr>cfg_apiKey = Some ''key'', cfg_teamId = Some ''team'',
       cfg_baseURL = None, cfg_apiSecret = None\<rparr>)) = Inl (Error ''API Secret is not set'') \<and>
   call 3 (PulseGet ''p1'') (constructor (Some \<lparr>cfg_apiKey = Some ''key'',
       cfg_teamId = Some ''team'', cfg_baseURL = None, cfg_apiSecret = None\<rparr>))
     = (Inr 0,
        (constructor (Some \<lparr>cfg_apiKey = Some ''key'', cfg_teamId = Some ''team'',
           cfg_baseURL = None, cfg_apiSecret = None\<rparr>))
        \<lparr>next_promise := 1, settlements := [Rejected 0 (Error ''API Secret is not set'')]\<rparr>) \<and>
   requests (snd (call 3 (PulseGet ''p1'') (constructor (Some \<lparr>cfg_apiKey = Some ''key'',
       cfg_teamId = Some ''team'', cfg_baseURL = None, cfg_apiSecret = None\<rparr>)))) = []"
proof -
  let ?c = "constructor (Some \<lparr>cfg_apiKey = Some ''key'', cfg_teamId = Some ''team'',
       cfg_baseURL = None, cfg_apiSecret = None\<rparr>)"
  have a: "axiosInstance ?c = None" by (simp add: constructor_def)
  have v: "validateConfig ?c = Inl (Error ''API Secret is not set'')"
    by (simp add: constructor_def validateConfig_def unset_def)
  have r: "requests ?c = []" by (simp add: constructor_def)
  have e: "call 3 (PulseGet ''p1'') ?c
     = (Inr 0, ?c\<lparr>next_promise := 1, settlements := [Rejected 0 (Error ''API Secret is not set'')]\<rparr>)"
    by code_simp
  from C9_errors_reject_the_promise [of 3 "PulseGet ''p1''" ?c] a v r e show ?thesis
    by simp
qed

end
